theory Spec2Isabelle
  imports Main
begin

section \<open>Data model (src/types)\<close>

text \<open>
  A JavaScript string is a sequence of UTF-16 code units; equality, \<open>includes\<close> and
  \<open>endsWith\<close> compare code units. A code unit is modelled as a natural number.
  \<open>js\<close> turns an ASCII literal into its code units.
\<close>

type_synonym jsstring = "nat list"

definition js :: "string \<Rightarrow> jsstring" where
  "js s = map of_char s"

text \<open>\<open>interface PromptItem { id; title; content; categoryId?; tags? }\<close>\<close>

record PromptItem =
  p_id :: jsstring
  p_title :: jsstring
  p_content :: jsstring
  p_categoryId :: "jsstring option"
  p_tags :: "jsstring list option"

text \<open>
  \<open>interface PromptCategory { id; name; description?; icon?; sortOrder?; createdAt? }\<close>.
  A \<open>Date\<close> is its time value in milliseconds.
\<close>

record PromptCategory =
  c_id :: jsstring
  c_name :: jsstring
  c_description :: "jsstring option"
  c_icon :: "jsstring option"
  c_sortOrder :: "int option"
  c_createdAt :: "int option"

text \<open>\<open>interface OperationResult { success; data?; error?; errorCode? }\<close>\<close>

record OperationResult =
  success :: bool
  data :: "nat option"
  error :: "jsstring option"
  errorCode :: "jsstring option"

section \<open>The host key-value store (\<open>context.globalState\<close>)\<close>

datatype storage_key = PROMPTS | CATEGORIES | SETTINGS

text \<open>
  The store holds one value per key. Whether \<open>get\<close> throws and whether \<open>update\<close>
  rejects is part of the store's state, per key, so that every theorem below ranges over
  healthy and failing stores alike. A rejected \<open>update\<close> leaves the value as it was.
\<close>

record globalState =
  gs_prompts :: "PromptItem list"
  gs_categories :: "PromptCategory list"
  gs_settings :: "(jsstring \<times> jsstring) list"
  gs_get_throws :: "storage_key \<Rightarrow> bool"
  gs_update_throws :: "storage_key \<Rightarrow> bool"

text \<open>What a rejected promise carries: the two \<open>new Error(...)\<close> of the service, or the
  exception of the store.\<close>

datatype error =
    PromptNotFound jsstring
  | CategoryNotFound jsstring
  | StoreFailure storage_key

definition get_prompts :: "globalState \<Rightarrow> error + PromptItem list" where
  "get_prompts gs =
     (if gs_get_throws gs PROMPTS then Inl (StoreFailure PROMPTS) else Inr (gs_prompts gs))"

definition get_categories :: "globalState \<Rightarrow> error + PromptCategory list" where
  "get_categories gs =
     (if gs_get_throws gs CATEGORIES then Inl (StoreFailure CATEGORIES)
      else Inr (gs_categories gs))"

definition update_prompts :: "globalState \<Rightarrow> PromptItem list \<Rightarrow> (error + unit) \<times> globalState" where
  "update_prompts gs v =
     (if gs_update_throws gs PROMPTS then (Inl (StoreFailure PROMPTS), gs)
      else (Inr (), gs\<lparr>gs_prompts := v\<rparr>))"

definition update_categories ::
  "globalState \<Rightarrow> PromptCategory list \<Rightarrow> (error + unit) \<times> globalState" where
  "update_categories gs v =
     (if gs_update_throws gs CATEGORIES then (Inl (StoreFailure CATEGORIES), gs)
      else (Inr (), gs\<lparr>gs_categories := v\<rparr>))"

definition update_settings ::
  "globalState \<Rightarrow> (jsstring \<times> jsstring) list \<Rightarrow> (error + unit) \<times> globalState" where
  "update_settings gs v =
     (if gs_update_throws gs SETTINGS then (Inl (StoreFailure SETTINGS), gs)
      else (Inr (), gs\<lparr>gs_settings := v\<rparr>))"

text \<open>
  \<open>Promise.all\<close> over updates that have all been started: every update runs, and the
  result is the first rejection, if there is one.
\<close>

definition first_rejection :: "(error + unit) \<Rightarrow> (error + unit) \<Rightarrow> (error + unit)" where
  "first_rejection r1 r2 = (case r1 of Inl e \<Rightarrow> Inl e | Inr _ \<Rightarrow> r2)"

section \<open>Array helpers\<close>

text \<open>\<open>Array.prototype.findIndex\<close>: the first index whose element satisfies the
  predicate, \<open>-1\<close> when there is none.\<close>

fun findIndex :: "('a \<Rightarrow> bool) \<Rightarrow> 'a list \<Rightarrow> int" where
  "findIndex P [] = -1"
| "findIndex P (x # xs) =
     (if P x then 0 else (let i = findIndex P xs in if i < 0 then -1 else i + 1))"

section \<open>StorageService (src/services/StorageService.ts)\<close>

text \<open>
  Every method is an \<open>async\<close> function: its outcome is \<open>Inr\<close> the value the promise
  resolves to or \<open>Inl\<close> the error it rejects with. Mutating methods also return the store
  they leave behind. A \<open>catch\<close> block that ends in \<open>throw error\<close> passes the error on; one
  that returns a value turns the error into that value.
\<close>

definition getPrompts :: "globalState \<Rightarrow> error + PromptItem list" where
  "getPrompts gs =
     (case get_prompts gs of
        Inl e \<Rightarrow> Inr []
      | Inr stored \<Rightarrow> Inr (map (\<lambda>prompt. prompt) stored))"


definition savePrompt :: "globalState \<Rightarrow> PromptItem \<Rightarrow> (error + unit) \<times> globalState" where
  "savePrompt gs prompt =
     (case getPrompts gs of
        Inl e \<Rightarrow> (Inl e, gs)
      | Inr prompts \<Rightarrow>
          (let existingIndex = findIndex (\<lambda>p. p_id p = p_id prompt) prompts;
               prompts' = (if existingIndex \<ge> 0 then prompts[nat existingIndex := prompt]
                           else prompts @ [prompt])
           in update_prompts gs prompts'))"

definition deletePrompt :: "globalState \<Rightarrow> jsstring \<Rightarrow> (error + unit) \<times> globalState" where
  "deletePrompt gs ident =
     (case getPrompts gs of
        Inl e \<Rightarrow> (Inl e, gs)
      | Inr prompts \<Rightarrow>
          (let promptIndex = findIndex (\<lambda>prompt. p_id prompt = ident) prompts
           in if promptIndex = -1 then (Inl (PromptNotFound ident), gs)
              else update_prompts gs
                     (prompts[nat promptIndex :=
                        (prompts ! nat promptIndex)\<lparr>p_categoryId := None\<rparr>])))"

definition getCategories :: "globalState \<Rightarrow> error + PromptCategory list" where
  "getCategories gs =
     (case get_categories gs of
        Inl e \<Rightarrow> Inr []
      | Inr stored \<Rightarrow>
          Inr (map (\<lambda>category. category\<lparr>c_createdAt :=
                      (case c_createdAt category of Some d \<Rightarrow> Some d | None \<Rightarrow> None)\<rparr>)
                 stored))"

text \<open>\<open>now\<close> is the value of \<open>new Date()\<close> at the call.\<close>

definition push_category :: "int \<Rightarrow> PromptCategory list \<Rightarrow> PromptCategory \<Rightarrow> PromptCategory list" where
  "push_category now categories category =
     categories @
       [category\<lparr>c_createdAt := (case c_createdAt category of Some d \<Rightarrow> Some d | None \<Rightarrow> Some now),
                 c_sortOrder := (case c_sortOrder category of Some n \<Rightarrow> Some n
                                 | None \<Rightarrow> Some (int (length categories)))\<rparr>]"

definition saveCategory ::
  "int \<Rightarrow> globalState \<Rightarrow> PromptCategory \<Rightarrow> (error + unit) \<times> globalState" where
  "saveCategory now gs category =
     (case getCategories gs of
        Inl e \<Rightarrow> (Inl e, gs)
      | Inr categories \<Rightarrow>
          (let existingIndex = findIndex (\<lambda>c. c_id c = c_id category) categories;
               categories' = (if existingIndex \<ge> 0 then categories[nat existingIndex := category]
                              else push_category now categories category)
           in update_categories gs categories'))"

definition deleteCategory :: "globalState \<Rightarrow> jsstring \<Rightarrow> (error + unit) \<times> globalState" where
  "deleteCategory gs ident =
     (case getCategories gs of
        Inl e \<Rightarrow> (Inl e, gs)
      | Inr categories \<Rightarrow>
          (let filteredCategories = filter (\<lambda>category. c_id category \<noteq> ident) categories
           in if length filteredCategories = length categories
              then (Inl (CategoryNotFound ident), gs)
              else (case getPrompts gs of
                      Inl e \<Rightarrow> (Inl e, gs)
                    | Inr prompts \<Rightarrow>
                        (let updatedPrompts =
                               map (\<lambda>prompt. if p_categoryId prompt = Some ident
                                              then prompt\<lparr>p_categoryId := None\<rparr> else prompt)
                                 prompts;
                             (r1, gs1) = update_categories gs filteredCategories;
                             (r2, gs2) = update_prompts gs1 updatedPrompts
                         in (first_rejection r1 r2, gs2)))))"

definition updateCategory :: "globalState \<Rightarrow> PromptCategory \<Rightarrow> (error + unit) \<times> globalState" where
  "updateCategory gs category =
     (case getCategories gs of
        Inl e \<Rightarrow> (Inl e, gs)
      | Inr categories \<Rightarrow>
          (let existingIndex = findIndex (\<lambda>c. c_id c = c_id category) categories
           in if existingIndex < 0 then (Inl (CategoryNotFound (c_id category)), gs)
              else update_categories gs (categories[nat existingIndex := category])))"

definition clearAll :: "globalState \<Rightarrow> (error + unit) \<times> globalState" where
  "clearAll gs =
     (let (r1, gs1) = update_prompts gs [];
          (r2, gs2) = update_categories gs1 [];
          (r3, gs3) = update_settings gs2 []
      in (first_rejection r1 (first_rejection r2 r3), gs3))"

text \<open>The loop of \<open>savePrompts\<close> over the incoming prompts, on \<open>mergedPrompts\<close>.\<close>

fun mergePrompts :: "PromptItem list \<Rightarrow> PromptItem list \<Rightarrow> PromptItem list" where
  "mergePrompts mergedPrompts [] = mergedPrompts"
| "mergePrompts mergedPrompts (prompt # rest) =
     (let existingIndex = findIndex (\<lambda>p. p_id p = p_id prompt) mergedPrompts
      in mergePrompts
           (if existingIndex \<ge> 0 then mergedPrompts[nat existingIndex := prompt]
            else mergedPrompts @ [prompt])
           rest)"

definition BATCH_SAVE_FAILED :: OperationResult where
  "BATCH_SAVE_FAILED =
     \<lparr>success = False, data = None,
      error = Some [25209, 37327, 20445, 23384, 22833, 36133],
      errorCode = Some (js ''BATCH_SAVE_FAILED'')\<rparr>"

definition savePrompts ::
  "globalState \<Rightarrow> PromptItem list \<Rightarrow> (error + OperationResult) \<times> globalState" where
  "savePrompts gs prompts =
     (case getPrompts gs of
        Inl e \<Rightarrow> (Inr BATCH_SAVE_FAILED, gs)
      | Inr existingPrompts \<Rightarrow>
          (let mergedPrompts = mergePrompts existingPrompts prompts
           in case update_prompts gs mergedPrompts of
                (Inl e, gs') \<Rightarrow> (Inr BATCH_SAVE_FAILED, gs')
              | (Inr _, gs') \<Rightarrow>
                  (Inr \<lparr>success = True, data = Some (length prompts),
                        error = None, errorCode = None\<rparr>, gs')))"

text \<open>The loop of \<open>saveCategories\<close>, on \<open>mergedCategories\<close>.\<close>

fun mergeCategories :: "int \<Rightarrow> PromptCategory list \<Rightarrow> PromptCategory list \<Rightarrow> PromptCategory list" where
  "mergeCategories now mergedCategories [] = mergedCategories"
| "mergeCategories now mergedCategories (category # rest) =
     (let existingIndex = findIndex (\<lambda>c. c_id c = c_id category) mergedCategories
      in mergeCategories now
           (if existingIndex \<ge> 0 then mergedCategories[nat existingIndex := category]
            else push_category now mergedCategories category)
           rest)"

definition saveCategories ::
  "int \<Rightarrow> globalState \<Rightarrow> PromptCategory list \<Rightarrow> (error + OperationResult) \<times> globalState" where
  "saveCategories now gs categories =
     (case getCategories gs of
        Inl e \<Rightarrow> (Inr BATCH_SAVE_FAILED, gs)
      | Inr existingCategories \<Rightarrow>
          (let mergedCategories = mergeCategories now existingCategories categories
           in case update_categories gs mergedCategories of
                (Inl e, gs') \<Rightarrow> (Inr BATCH_SAVE_FAILED, gs')
              | (Inr _, gs') \<Rightarrow>
                  (Inr \<lparr>success = True, data = Some (length categories),
                        error = None, errorCode = None\<rparr>, gs')))"


section \<open>Strings and arrays of the host language\<close>

text \<open>\<open>String.prototype.startsWith\<close>, \<open>endsWith\<close> and \<open>includes\<close> (here \<open>string_includes\<close>), on
  code units.\<close>

fun startsWith :: "jsstring \<Rightarrow> jsstring \<Rightarrow> bool" where
  "startsWith s [] = True"
| "startsWith [] (c # cs) = False"
| "startsWith (x # xs) (c # cs) = (x = c \<and> startsWith xs cs)"

definition endsWith :: "jsstring \<Rightarrow> jsstring \<Rightarrow> bool" where
  "endsWith s suffix = startsWith (rev s) (rev suffix)"

fun string_includes :: "jsstring \<Rightarrow> jsstring \<Rightarrow> bool" where
  "string_includes [] sub = (sub = [])"
| "string_includes (x # xs) sub = (startsWith (x # xs) sub \<or> string_includes xs sub)"

text \<open>
  \<open>String.prototype.trim\<close> strips the code points WhiteSpace and LineTerminator of
  ECMAScript from both ends; all of them are single code units.
\<close>

definition isWhiteSpace :: "nat \<Rightarrow> bool" where
  "isWhiteSpace c =
     (c \<in> {9, 10, 11, 12, 13, 32, 160, 5760, 8232, 8233, 8239, 8287, 12288, 65279}
      \<or> (8192 \<le> c \<and> c \<le> 8202))"

definition trim :: "jsstring \<Rightarrow> jsstring" where
  "trim s = rev (dropWhile isWhiteSpace (rev (dropWhile isWhiteSpace s)))"

text \<open>The decimal digits of a count, as a template literal prints a non-negative integer.\<close>

fun numberToString :: "nat \<Rightarrow> jsstring" where
  "numberToString n =
     (if n < 10 then [48 + n] else numberToString (n div 10) @ [48 + n mod 10])"

declare numberToString.simps [simp del]

text \<open>A string or \<open>undefined\<close> in a condition: \<open>undefined\<close> and \<open>""\<close> are falsy.\<close>

definition truthy :: "jsstring option \<Rightarrow> bool" where
  "truthy v = (case v of None \<Rightarrow> False | Some s \<Rightarrow> s \<noteq> [])"

text \<open>
  \<open>toLowerCase\<close> and \<open>localeCompare\<close> depend on Unicode tables and on the locale of the
  host; they are parameters of the model.
\<close>

record host =
  toLowerCase :: "jsstring \<Rightarrow> jsstring"
  localeCompare :: "jsstring \<Rightarrow> jsstring \<Rightarrow> int"

text \<open>
  \<open>Array.prototype.sort\<close> is stable and, for a consistent comparator, returns the one
  stable arrangement in which no element is greater than a later one. Insertion from the
  right computes that arrangement: an element goes in front of the first element of the
  sorted rest that it does not exceed.
\<close>

fun insert_sorted :: "('a \<Rightarrow> 'a \<Rightarrow> int) \<Rightarrow> 'a \<Rightarrow> 'a list \<Rightarrow> 'a list" where
  "insert_sorted cmp x [] = [x]"
| "insert_sorted cmp x (y # ys) =
     (if cmp x y \<le> 0 then x # y # ys else y # insert_sorted cmp x ys)"

fun array_sort :: "('a \<Rightarrow> 'a \<Rightarrow> int) \<Rightarrow> 'a list \<Rightarrow> 'a list" where
  "array_sort cmp [] = []"
| "array_sort cmp (x # xs) = insert_sorted cmp x (array_sort cmp xs)"

text \<open>What ECMAScript asks of a comparator for the result of \<open>sort\<close> to be defined.\<close>

definition consistent_comparator :: "('a \<Rightarrow> 'a \<Rightarrow> int) \<Rightarrow> bool" where
  "consistent_comparator cmp =
     ((\<forall>a. cmp a a = 0) \<and>
      (\<forall>a b. (cmp a b < 0) = (cmp b a > 0)) \<and>
      (\<forall>a b c. cmp a b \<le> 0 \<and> cmp b c \<le> 0 \<longrightarrow> cmp a c \<le> 0))"

section \<open>Tree items (src/types, src/constants/constants.ts)\<close>

datatype contextValue = PROMPT_ITEM | CATEGORY_ITEM | GUIDE_ITEM

datatype collapsibleState = NoneState | Collapsed | Expanded

text \<open>The command of a tree item: which command, and the data in its argument.\<close>

datatype command =
    SEND_TO_CHAT_FROM_TREE PromptItem
  | VIEW_GUIDE_FROM_TREE PromptItem jsstring

text \<open>
  \<open>TreePromptItem\<close> with the fields its three extensions add (\<open>description\<close> of
  \<open>TreeCategoryItem\<close>; \<open>guideData\<close> and \<open>categoryId\<close> of \<open>TreeGuideItem\<close>). \<open>iconPath\<close> is
  the id of the theme icon.
\<close>

record TreePromptItem =
  t_id :: jsstring
  t_label :: jsstring
  t_contextValue :: contextValue
  t_iconPath :: "jsstring option"
  t_collapsibleState :: "collapsibleState option"
  t_command :: "command option"
  t_promptData :: "PromptItem option"
  t_categoryData :: "PromptCategory option"
  t_parentId :: "jsstring option"
  t_sortOrder :: "int option"
  t_description :: "jsstring option"
  t_guideData :: "PromptItem option"
  t_categoryId :: "jsstring option"

definition UNCATEGORIZED :: jsstring where
  "UNCATEGORIZED = js ''__uncategorized__''"

definition ICON_CATEGORY :: jsstring where
  "ICON_CATEGORY = js ''folder''"

definition ICON_PROMPT :: jsstring where
  "ICON_PROMPT = js ''file''"

text \<open>The literals that are not ASCII, as code units.\<close>

definition uncategorized_name :: jsstring where
  \<comment> \<open>U+672A U+5206 U+7C7B\<close>
  "uncategorized_name = [26410, 20998, 31867]"

definition uncategorized_description :: jsstring where
  "uncategorized_description = [26410, 20998, 31867, 30340] @ js ''Prompt''"

definition guide_marker :: jsstring where
  \<comment> \<open>U+8BF4 U+660E U+4E66\<close>
  "guide_marker = [35828, 26126, 20070]"

definition guide_label :: jsstring where
  \<comment> \<open>U+1F4D6 as a surrogate pair, a space, and the marker\<close>
  "guide_label = [55357, 56534, 32] @ guide_marker"

section \<open>PromptTreeDataProvider\<close>

text \<open>
  The fields of the class. A \<open>setTimeout\<close> handle is modelled by what is pending behind
  it: the time at which the callback is due (and, for the search timer, the \<open>filter\<close> the
  callback has captured), or nothing once it has fired or been cleared.
  \<open>notifications\<close> lists the times at which \<open>_onDidChangeTreeData.fire()\<close> ran.
\<close>

record PromptTreeDataProvider =
  treeData :: "TreePromptItem list"
  searchFilter :: "jsstring option"
  searchTimeout :: "(nat \<times> jsstring option) option"
  refreshTimeout :: "nat option"
  notifications :: "nat list"

definition new_provider :: PromptTreeDataProvider where
  "new_provider =
     \<lparr>treeData = [], searchFilter = None, searchTimeout = None, refreshTimeout = None,
      notifications = []\<rparr>"

definition createUncategorizedCategory :: "nat \<Rightarrow> TreePromptItem" where
  "createUncategorizedCategory promptCount =
     \<lparr>t_id = UNCATEGORIZED,
      t_label = uncategorized_name @ js '' ('' @ numberToString promptCount @ js '')'',
      t_contextValue = CATEGORY_ITEM,
      t_iconPath = Some ICON_CATEGORY,
      t_collapsibleState = Some Collapsed,
      t_command = None,
      t_promptData = None,
      t_categoryData = Some \<lparr>c_id = UNCATEGORIZED, c_name = uncategorized_name,
                             c_description = Some uncategorized_description,
                             c_icon = Some ICON_CATEGORY, c_sortOrder = Some 999,
                             c_createdAt = None\<rparr>,
      t_parentId = None,
      t_sortOrder = None,
      t_description = Some [],
      t_guideData = None,
      t_categoryId = None\<rparr>"

definition createCategoryItem :: "PromptCategory \<Rightarrow> nat \<Rightarrow> TreePromptItem" where
  "createCategoryItem category promptCount =
     (let icon = (if truthy (c_icon category) then the (c_icon category) else ICON_CATEGORY)
      in \<lparr>t_id = c_id category,
          t_label = c_name category @ js '' ('' @ numberToString promptCount @ js '')'',
          t_contextValue = CATEGORY_ITEM,
          t_iconPath = Some icon,
          t_collapsibleState = Some Collapsed,
          t_command = None,
          t_promptData = None,
          t_categoryData = Some category,
          t_parentId = None,
          t_sortOrder = c_sortOrder category,
          t_description = c_description category,
          t_guideData = None,
          t_categoryId = None\<rparr>)"

definition createPromptItem :: "PromptItem \<Rightarrow> jsstring option \<Rightarrow> TreePromptItem" where
  "createPromptItem prompt parentId =
     \<lparr>t_id = p_id prompt,
      t_label = p_title prompt,
      t_contextValue = PROMPT_ITEM,
      t_iconPath = Some ICON_PROMPT,
      t_collapsibleState = Some NoneState,
      t_command = Some (SEND_TO_CHAT_FROM_TREE prompt),
      t_promptData = Some prompt,
      t_categoryData = None,
      t_parentId = parentId,
      t_sortOrder = None,
      t_description = None,
      t_guideData = None,
      t_categoryId = None\<rparr>"

definition createGuideItem ::
  "globalState \<Rightarrow> jsstring \<Rightarrow> PromptCategory option \<Rightarrow> error + TreePromptItem option" where
  "createGuideItem gs categoryId categoryData =
     (case getPrompts gs of
        Inl e \<Rightarrow> Inr None
      | Inr prompts \<Rightarrow>
          (case find (\<lambda>p. p_categoryId p = Some categoryId \<and>
                           (endsWith (p_id p) (js ''-guide'') \<or> string_includes (p_title p) guide_marker))
                  prompts of
             None \<Rightarrow> Inr None
           | Some guidePrompt \<Rightarrow>
               Inr (Some \<lparr>t_id = js ''guide-'' @ categoryId,
                          t_label = guide_label,
                          t_contextValue = GUIDE_ITEM,
                          t_iconPath = Some (js ''book''),
                          t_collapsibleState = Some NoneState,
                          t_command = Some (VIEW_GUIDE_FROM_TREE guidePrompt categoryId),
                          t_promptData = None,
                          t_categoryData = None,
                          t_parentId = Some categoryId,
                          t_sortOrder = None,
                          t_description = None,
                          t_guideData = Some guidePrompt,
                          t_categoryId = Some categoryId\<rparr>)))"

definition getCategoryPromptCount ::
  "globalState \<Rightarrow> jsstring \<Rightarrow> PromptItem list option \<Rightarrow> error + nat" where
  "getCategoryPromptCount gs categoryId prompts =
     (case (case prompts of None \<Rightarrow> getPrompts gs | Some ps \<Rightarrow> Inr ps) of
        Inl e \<Rightarrow> Inr 0
      | Inr ps \<Rightarrow> Inr (length (filter (\<lambda>p. p_categoryId p = Some categoryId) ps)))"

text \<open>The predicate of both \<open>filter\<close> calls that compute the uncategorized prompts:
  \<open>!p.categoryId || !categories.some((c) => c.id === p.categoryId)\<close>.\<close>

definition isUncategorized :: "PromptCategory list \<Rightarrow> PromptItem \<Rightarrow> bool" where
  "isUncategorized categories p =
     (\<not> truthy (p_categoryId p) \<or> \<not> list_ex (\<lambda>c. Some (c_id c) = p_categoryId p) categories)"

definition getChildItems :: "globalState \<Rightarrow> TreePromptItem \<Rightarrow> error + TreePromptItem list" where
  "getChildItems gs element =
     (case getPrompts gs of
        Inl e \<Rightarrow> Inr []
      | Inr prompts \<Rightarrow>
          if t_contextValue element = CATEGORY_ITEM then
            (case (if t_id element = UNCATEGORIZED
                   then (case getCategories gs of
                           Inl e \<Rightarrow> Inl e
                         | Inr categories \<Rightarrow> Inr (filter (isUncategorized categories) prompts))
                   else Inr (filter (\<lambda>p. p_categoryId p = Some (t_id element)) prompts)) of
               Inl e \<Rightarrow> Inr []
             | Inr categoryPrompts \<Rightarrow>
                 (case (if t_id element \<noteq> UNCATEGORIZED
                        then (case createGuideItem gs (t_id element) (t_categoryData element) of
                                Inl e \<Rightarrow> Inl e
                              | Inr None \<Rightarrow> Inr []
                              | Inr (Some guideItem) \<Rightarrow> Inr [guideItem])
                        else Inr []) of
                    Inl e \<Rightarrow> Inr []
                  | Inr childItems \<Rightarrow>
                      (let nonGuidePrompts =
                             filter (\<lambda>p. p_id p \<noteq> t_id element @ js ''-guide'') categoryPrompts;
                           promptItems =
                             map (\<lambda>p. createPromptItem p (Some (t_id element))) nonGuidePrompts
                       in Inr (childItems @ promptItems))))
          else Inr [])"

subsection \<open>The search projection\<close>

text \<open>The \<open>if\<close> / \<open>else if\<close> chain that sets \<open>isMatch\<close> in \<open>getSearchResults\<close>.\<close>

definition isMatch :: "host \<Rightarrow> jsstring \<Rightarrow> PromptItem \<Rightarrow> bool" where
  "isMatch h searchTerm prompt =
     (if string_includes (toLowerCase h (p_title prompt)) searchTerm then True
      else if (case p_tags prompt of
                 None \<Rightarrow> False
               | Some tags \<Rightarrow> list_ex (\<lambda>tag. string_includes (toLowerCase h tag) searchTerm) tags)
           then True
      else if string_includes (toLowerCase h (p_content prompt)) searchTerm then True
      else False)"

text \<open>The inner loop over \<open>categoryPrompts\<close>: push a prompt unless one with its id is
  already among the matches.\<close>

fun pushUnmatched :: "PromptItem list \<Rightarrow> PromptItem list \<Rightarrow> PromptItem list" where
  "pushUnmatched matchedPrompts [] = matchedPrompts"
| "pushUnmatched matchedPrompts (prompt # rest) =
     pushUnmatched
       (if \<not> list_ex (\<lambda>mp. p_id mp = p_id prompt) matchedPrompts
        then matchedPrompts @ [prompt] else matchedPrompts)
       rest"

text \<open>The outer loop over \<open>matchedCategoryIds\<close>.\<close>

fun pushCategoryPrompts ::
  "PromptItem list \<Rightarrow> PromptItem list \<Rightarrow> jsstring list \<Rightarrow> PromptItem list" where
  "pushCategoryPrompts prompts matchedPrompts [] = matchedPrompts"
| "pushCategoryPrompts prompts matchedPrompts (categoryId # rest) =
     pushCategoryPrompts prompts
       (pushUnmatched matchedPrompts (filter (\<lambda>p. p_categoryId p = Some categoryId) prompts))
       rest"

text \<open>The comparator handed to \<open>matchedPrompts.sort\<close>.\<close>

definition byRelevance :: "host \<Rightarrow> jsstring \<Rightarrow> PromptItem \<Rightarrow> PromptItem \<Rightarrow> int" where
  "byRelevance h searchTerm a b =
     (let aInTitle = string_includes (toLowerCase h (p_title a)) searchTerm;
          bInTitle = string_includes (toLowerCase h (p_title b)) searchTerm
      in if aInTitle \<noteq> bInTitle then (if aInTitle then -1 else 1)
         else localeCompare h (p_title a) (p_title b))"

definition getSearchResults ::
  "host \<Rightarrow> PromptTreeDataProvider \<Rightarrow> globalState \<Rightarrow> error + TreePromptItem list" where
  "getSearchResults h this gs =
     (if \<not> truthy (searchFilter this) then Inr []
      else
        (case getPrompts gs of
           Inl e \<Rightarrow> Inr []
         | Inr prompts \<Rightarrow>
             (case getCategories gs of
                Inl e \<Rightarrow> Inr []
              | Inr categories \<Rightarrow>
                  (let searchTerm = trim (toLowerCase h (the (searchFilter this)));
                       matchedPrompts = filter (isMatch h searchTerm) prompts;
                       matchedCategoryIds =
                         map c_id
                           (filter (\<lambda>category.
                                      string_includes (toLowerCase h (c_name category)) searchTerm)
                              categories);
                       matchedPrompts = pushCategoryPrompts prompts matchedPrompts matchedCategoryIds;
                       matchedPrompts = array_sort (byRelevance h searchTerm) matchedPrompts
                   in Inr (map (\<lambda>prompt. createPromptItem prompt None) matchedPrompts)))))"

subsection \<open>The hierarchical projection\<close>

text \<open>The loop of \<open>getRootItems\<close> over the categories, on \<open>rootItems\<close>.\<close>

fun pushCategoryItems ::
  "globalState \<Rightarrow> PromptItem list \<Rightarrow> TreePromptItem list \<Rightarrow> PromptCategory list \<Rightarrow>
     error + TreePromptItem list" where
  "pushCategoryItems gs prompts rootItems [] = Inr rootItems"
| "pushCategoryItems gs prompts rootItems (category # rest) =
     (case getCategoryPromptCount gs (c_id category) (Some prompts) of
        Inl e \<Rightarrow> Inl e
      | Inr categoryPromptCount \<Rightarrow>
          pushCategoryItems gs prompts
            (rootItems @ [createCategoryItem category categoryPromptCount]) rest)"

text \<open>\<open>getRootItems\<close> returns the items and leaves them in \<open>this.treeData\<close>, except on the
  search path and in the \<open>catch\<close> block.\<close>

definition getRootItems ::
  "host \<Rightarrow> PromptTreeDataProvider \<Rightarrow> globalState \<Rightarrow>
     (error + TreePromptItem list) \<times> PromptTreeDataProvider" where
  "getRootItems h this gs =
     (if truthy (searchFilter this) \<and> trim (the (searchFilter this)) \<noteq> []
      then (getSearchResults h this gs, this)
      else
        (case getPrompts gs of
           Inl e \<Rightarrow> (Inr [], this)
         | Inr prompts \<Rightarrow>
             (case getCategories gs of
                Inl e \<Rightarrow> (Inr [], this)
              | Inr categories \<Rightarrow>
                  (case pushCategoryItems gs prompts [] categories of
                     Inl e \<Rightarrow> (Inr [], this)
                   | Inr rootItems \<Rightarrow>
                       (let uncategorizedPrompts = filter (isUncategorized categories) prompts;
                            rootItems =
                              (if length uncategorizedPrompts > 0
                               then rootItems @
                                      [createUncategorizedCategory (length uncategorizedPrompts)]
                               else rootItems)
                        in (Inr rootItems, this\<lparr>treeData := rootItems\<rparr>))))))"

subsection \<open>Debounced refresh and search filter\<close>

text \<open>\<open>refresh()\<close> and \<open>setSearchFilter(filter)\<close>, called at time \<open>now\<close> (milliseconds):
  \<open>clearTimeout\<close> forgets the pending callback, \<open>setTimeout\<close> puts the new one in its place.\<close>

definition refresh :: "nat \<Rightarrow> PromptTreeDataProvider \<Rightarrow> PromptTreeDataProvider" where
  "refresh now this = this\<lparr>refreshTimeout := Some (now + 100)\<rparr>"

definition setSearchFilter ::
  "nat \<Rightarrow> jsstring option \<Rightarrow> PromptTreeDataProvider \<Rightarrow> PromptTreeDataProvider" where
  "setSearchFilter now filter' this = this\<lparr>searchTimeout := Some (now + 300, filter')\<rparr>"

text \<open>
  The timers of the event loop. A pending callback runs when its time has come, the
  earlier one first. Callbacks due at the same time run in the order in which their
  timers were set: the search timer, whose delay is the longer one, was then set before
  the refresh timer, so the search callback runs first (and its \<open>refresh()\<close> clears the
  refresh that was pending). The refresh callback fires the event; the search callback
  stores the filter and calls \<open>refresh()\<close>.
\<close>

datatype timer = RefreshTimer | SearchTimer

definition next_due :: "PromptTreeDataProvider \<Rightarrow> (nat \<times> timer) option" where
  "next_due this =
     (case (refreshTimeout this, searchTimeout this) of
        (None, None) \<Rightarrow> None
      | (Some r, None) \<Rightarrow> Some (r, RefreshTimer)
      | (None, Some (s, f)) \<Rightarrow> Some (s, SearchTimer)
      | (Some r, Some (s, f)) \<Rightarrow> if r < s then Some (r, RefreshTimer) else Some (s, SearchTimer))"

fun fire :: "timer \<Rightarrow> nat \<Rightarrow> PromptTreeDataProvider \<Rightarrow> PromptTreeDataProvider" where
  "fire RefreshTimer t this =
     this\<lparr>refreshTimeout := None, notifications := notifications this @ [t]\<rparr>"
| "fire SearchTimer t this =
     (case searchTimeout this of
        None \<Rightarrow> this
      | Some (s, filter') \<Rightarrow> refresh t (this\<lparr>searchTimeout := None, searchFilter := filter'\<rparr>))"

definition pending :: "PromptTreeDataProvider \<Rightarrow> nat" where
  "pending this =
     (if searchTimeout this = None then 0 else 2) + (if refreshTimeout this = None then 0 else 1)"

function run_timers :: "nat \<Rightarrow> PromptTreeDataProvider \<Rightarrow> PromptTreeDataProvider" where
  "run_timers T this =
     (case next_due this of
        None \<Rightarrow> this
      | Some (t, k) \<Rightarrow> if t \<le> T then run_timers T (fire k t this) else this)"
  by pat_completeness auto
termination
proof (relation "measure (\<lambda>(T, this). pending this)")
  show "wf (measure (\<lambda>(T, this). pending this))" by simp
next
  fix T :: nat and this :: PromptTreeDataProvider and x2 :: "nat \<times> timer" and t :: nat and k :: timer
  assume "next_due this = Some x2" and "(t, k) = x2" and "t \<le> T"
  then have nd: "next_due this = Some (t, k)" by simp
  have "pending (fire k t this) < pending this"
  proof (cases k)
    case RefreshTimer
    with nd have "refreshTimeout this \<noteq> None"
      by (auto simp: next_due_def split: option.splits if_splits)
    with RefreshTimer show ?thesis by (simp add: pending_def)
  next
    case SearchTimer
    with nd obtain s f where "searchTimeout this = Some (s, f)"
      by (auto simp: next_due_def split: option.splits if_splits)
    with SearchTimer show ?thesis by (simp add: pending_def refresh_def)
  qed
  then show "((T, fire k t this), (T, this)) \<in> measure (\<lambda>(T, this). pending this)" by simp
qed

declare run_timers.simps [simp del]

text \<open>What happens to a provider: a call of \<open>refresh()\<close>, a call of
  \<open>setSearchFilter(filter)\<close>, or time passing.\<close>

datatype event = CallRefresh | CallSetSearchFilter "jsstring option" | Wait nat

fun step :: "nat \<times> PromptTreeDataProvider \<Rightarrow> event \<Rightarrow> nat \<times> PromptTreeDataProvider" where
  "step (now, this) CallRefresh = (now, refresh now this)"
| "step (now, this) (CallSetSearchFilter filter') = (now, setSearchFilter now filter' this)"
| "step (now, this) (Wait d) = (now + d, run_timers (now + d) this)"

definition run :: "event list \<Rightarrow> nat \<times> PromptTreeDataProvider \<Rightarrow> nat \<times> PromptTreeDataProvider" where
  "run events start = foldl step start events"

text \<open>\<open>refresh()\<close> called once and then again after each of the given gaps.\<close>

definition refresh_calls :: "nat list \<Rightarrow> event list" where
  "refresh_calls gaps = CallRefresh # concat (map (\<lambda>g. [Wait g, CallRefresh]) gaps)"

text \<open>The times of those calls, the first one at time \<open>t\<close>.\<close>

fun call_times :: "nat \<Rightarrow> nat list \<Rightarrow> nat list" where
  "call_times t [] = [t]"
| "call_times t (g # gaps) = t # call_times (t + g) gaps"

section \<open>PromptManager.searchPrompts (src/models/PromptManager.ts)\<close>

datatype sortDirection = Asc | Desc

text \<open>\<open>interface SearchOptions\<close>; \<open>sortBy\<close> has the one value \<open>"title"\<close>.\<close>

record SearchOptions =
  so_query :: jsstring
  so_categoryId :: "jsstring option"
  so_tags :: "jsstring list option"
  so_includeContent :: "bool option"
  so_includeDescription :: "bool option"
  so_includeTags :: "bool option"
  so_sortBy :: "unit option"
  so_sortDirection :: "sortDirection option"

text \<open>\<open>options?.includeContent !== false\<close> and \<open>options?.includeTags !== false\<close>.\<close>

definition notFalse :: "SearchOptions option \<Rightarrow> (SearchOptions \<Rightarrow> bool option) \<Rightarrow> bool" where
  "notFalse options field =
     (case options of None \<Rightarrow> True | Some opts \<Rightarrow> field opts \<noteq> Some False)"

definition isMatchWith :: "host \<Rightarrow> SearchOptions option \<Rightarrow> jsstring \<Rightarrow> PromptItem \<Rightarrow> bool" where
  "isMatchWith h options searchTerm prompt =
     (if string_includes (toLowerCase h (p_title prompt)) searchTerm then True
      else if notFalse options so_includeContent \<and>
              string_includes (toLowerCase h (p_content prompt)) searchTerm then True
      else if notFalse options so_includeTags \<and>
              (case p_tags prompt of
                 None \<Rightarrow> False
               | Some tags \<Rightarrow> list_ex (\<lambda>tag. string_includes (toLowerCase h tag) searchTerm) tags)
           then True
      else False)"

definition searchPrompts ::
  "host \<Rightarrow> globalState \<Rightarrow> jsstring \<Rightarrow> SearchOptions option \<Rightarrow> error + PromptItem list" where
  "searchPrompts h gs keyword options =
     (case getPrompts gs of
        Inl e \<Rightarrow> Inr []
      | Inr allPrompts \<Rightarrow>
          (case getCategories gs of
             Inl e \<Rightarrow> Inr []
           | Inr categories \<Rightarrow>
               if keyword = [] \<or> trim keyword = [] then Inr allPrompts
               else
                 (let searchTerm = trim (toLowerCase h keyword);
                      matchedPrompts = filter (isMatchWith h options searchTerm) allPrompts;
                      matchedCategoryIds =
                        map c_id
                          (filter (\<lambda>category.
                                     string_includes (toLowerCase h (c_name category)) searchTerm \<or>
                                     (case c_description category of
                                        None \<Rightarrow> False
                                      | Some d \<Rightarrow> string_includes (toLowerCase h d) searchTerm))
                             categories)
                  in Inr (pushCategoryPrompts allPrompts matchedPrompts matchedCategoryIds))))"

section \<open>Example data\<close>

text \<open>A store on which every \<open>get\<close> and \<open>update\<close> works.\<close>

definition healthy :: "PromptItem list \<Rightarrow> PromptCategory list \<Rightarrow> globalState" where
  "healthy ps cs = \<lparr>gs_prompts = ps, gs_categories = cs, gs_settings = [],
     gs_get_throws = (\<lambda>k. False), gs_update_throws = (\<lambda>k. False)\<rparr>"

definition p1 :: PromptItem where
  "p1 = \<lparr>p_id = js ''p1'', p_title = js ''Sort'', p_content = js ''sort the list'',
          p_categoryId = Some (js ''programming''), p_tags = None\<rparr>"

definition p2 :: PromptItem where
  "p2 = \<lparr>p_id = js ''p2'', p_title = js ''Loose'', p_content = js ''text'',
          p_categoryId = None, p_tags = Some [js ''misc'']\<rparr>"

definition programming :: PromptCategory where
  "programming = \<lparr>c_id = js ''programming'', c_name = [32534, 31243], c_description = None,
     c_icon = None, c_sortOrder = Some 0, c_createdAt = None\<rparr>"

text \<open>A category whose id is the empty string, and a prompt that refers to it.\<close>

definition blank_id_category :: PromptCategory where
  "blank_id_category = \<lparr>c_id = [], c_name = js ''X'', c_description = None,
     c_icon = None, c_sortOrder = None, c_createdAt = None\<rparr>"

definition blank_id_prompt :: PromptItem where
  "blank_id_prompt = \<lparr>p_id = js ''p'', p_title = js ''T'', p_content = js ''text'',
     p_categoryId = Some [], p_tags = None\<rparr>"

text \<open>A prompt of the category \<open>programming\<close> whose id ends in \<open>-guide\<close>.\<close>

definition intro_guide :: PromptItem where
  "intro_guide = \<lparr>p_id = js ''intro-guide'', p_title = js ''Intro'', p_content = js ''text'',
     p_categoryId = Some (js ''programming''), p_tags = None\<rparr>"

text \<open>A search example: a prompt that matches in its title, one that matches by a tag and
  by the name of its category, and one that does not match.\<close>

definition refactoring :: PromptCategory where
  "refactoring = \<lparr>c_id = js ''c1'', c_name = js ''Refactoring'', c_description = None,
     c_icon = None, c_sortOrder = None, c_createdAt = None\<rparr>"

definition refactor_helper :: PromptItem where
  "refactor_helper = \<lparr>p_id = js ''a'', p_title = js ''Refactor helper'', p_content = js ''x'',
     p_categoryId = None, p_tags = None\<rparr>"

definition helper_note :: PromptItem where
  "helper_note = \<lparr>p_id = js ''b'', p_title = js ''Helper note'', p_content = js ''y'',
     p_categoryId = Some (js ''c1''), p_tags = Some [js ''refactor'']\<rparr>"

definition unrelated :: PromptItem where
  "unrelated = \<lparr>p_id = js ''c'', p_title = js ''Zed'', p_content = js ''z'',
     p_categoryId = None, p_tags = None\<rparr>"



text \<open>A host for the examples: ASCII lower case, and comparison by code units.\<close>

definition ascii_lower :: "jsstring \<Rightarrow> jsstring" where
  "ascii_lower s = map (\<lambda>c. if 65 \<le> c \<and> c \<le> 90 then c + 32 else c) s"

fun code_unit_compare :: "jsstring \<Rightarrow> jsstring \<Rightarrow> int" where
  "code_unit_compare [] [] = 0"
| "code_unit_compare [] (y # ys) = -1"
| "code_unit_compare (x # xs) [] = 1"
| "code_unit_compare (x # xs) (y # ys) =
     (if x < y then -1 else if y < x then 1 else code_unit_compare xs ys)"

definition ascii_host :: host where
  "ascii_host = \<lparr>toLowerCase = ascii_lower, localeCompare = code_unit_compare\<rparr>"

section \<open>The invariant of the stored ids\<close>

definition distinct_ids :: "globalState \<Rightarrow> bool" where
  "distinct_ids gs =
     (distinct (map p_id (gs_prompts gs)) \<and> distinct (map c_id (gs_categories gs)))"

section \<open>Facts about the array helpers\<close>

lemma findIndex_ge: "findIndex P xs \<ge> -1"
  by (induction xs) (auto simp: Let_def)

lemma findIndex_none: "(findIndex P xs = -1) = (\<forall>x\<in>set xs. \<not> P x)"
proof (induction xs)
  case Nil
  show ?case by simp
next
  case (Cons a xs)
  have "findIndex P xs \<ge> -1" by (rule findIndex_ge)
  with Cons show ?case by (auto simp: Let_def)
qed

lemma findIndex_neg: "(findIndex P xs < 0) = (\<forall>x\<in>set xs. \<not> P x)"
  using findIndex_ge [of P xs] findIndex_none [of P xs] by auto

lemma findIndex_found:
  "\<exists>x\<in>set xs. P x \<Longrightarrow>
     nat (findIndex P xs) < length xs \<and> P (xs ! nat (findIndex P xs))"
proof (induction xs)
  case Nil
  then show ?case by simp
next
  case (Cons a xs)
  show ?case
  proof (cases "P a")
    case True
    then show ?thesis by simp
  next
    case False
    with Cons.prems have ex: "\<exists>x\<in>set xs. P x" by auto
    then have nn: "\<not> findIndex P xs < 0" by (simp add: findIndex_neg)
    from Cons.IH [OF ex] False nn show ?thesis
      by (simp add: Let_def nat_add_distrib)
  qed
qed

lemma map_list_update_same:
  "i < length xs \<Longrightarrow> f (xs ! i) = f y \<Longrightarrow> map f (xs[i := y]) = map f xs"
  by (simp add: map_update list_update_same_conv)

section \<open>StorageService: properties\<close>

lemma getPrompts_readable: "\<not> gs_get_throws gs PROMPTS \<Longrightarrow> getPrompts gs = Inr (gs_prompts gs)"
  by (simp add: getPrompts_def get_prompts_def)

lemma findIndex_first: "j < nat (findIndex P xs) \<Longrightarrow> \<not> P (xs ! j)"
proof (induction xs arbitrary: j)
  case Nil
  then show ?case by simp
next
  case (Cons a xs)
  then show ?case
    by (cases j) (auto simp: Let_def nat_add_distrib split: if_splits)
qed

text \<open>
  C5. On a store whose read works, \<open>deletePrompt(id)\<close> rejects with the not-found error
  exactly when no stored prompt has that id. When one has it and the write works, the
  call resolves and the stored list differs from the old one only at the first record
  with that id, and there only in \<open>categoryId\<close>, which becomes absent: the record stays,
  with its id, title, content and tags.
\<close>

theorem deletePrompt_soft_delete:
  "\<not> gs_get_throws gs PROMPTS \<Longrightarrow>
   ((fst (deletePrompt gs ident) = Inl (PromptNotFound ident)) =
      (\<forall>p\<in>set (gs_prompts gs). p_id p \<noteq> ident)) \<and>
   ((\<exists>p\<in>set (gs_prompts gs). p_id p = ident) \<and> \<not> gs_update_throws gs PROMPTS \<longrightarrow>
      (\<exists>i<length (gs_prompts gs).
          p_id (gs_prompts gs ! i) = ident \<and>
          (\<forall>j<i. p_id (gs_prompts gs ! j) \<noteq> ident) \<and>
          deletePrompt gs ident =
            (Inr (), gs\<lparr>gs_prompts := (gs_prompts gs)
                         [i := (gs_prompts gs ! i)\<lparr>p_categoryId := None\<rparr>]\<rparr>)))"
proof -
  assume rd: "\<not> gs_get_throws gs PROMPTS"
  let ?ps = "gs_prompts gs"
  let ?P = "\<lambda>prompt. p_id prompt = ident"
  let ?i = "findIndex ?P ?ps"
  have gp: "getPrompts gs = Inr ?ps" using rd by (rule getPrompts_readable)
  have none: "(?i = -1) = (\<forall>p\<in>set ?ps. p_id p \<noteq> ident)"
    by (simp add: findIndex_none)
  have a: "(fst (deletePrompt gs ident) = Inl (PromptNotFound ident)) =
      (\<forall>p\<in>set ?ps. p_id p \<noteq> ident)"
  proof (cases "?i = -1")
    case True
    then show ?thesis using none by (simp add: deletePrompt_def gp)
  next
    case False
    then have "fst (deletePrompt gs ident) \<noteq> Inl (PromptNotFound ident)"
      by (simp add: deletePrompt_def gp update_prompts_def Let_def)
    with False none show ?thesis by simp
  qed
  have b: "\<exists>i<length ?ps. p_id (?ps ! i) = ident \<and> (\<forall>j<i. p_id (?ps ! j) \<noteq> ident) \<and>
          deletePrompt gs ident =
            (Inr (), gs\<lparr>gs_prompts := ?ps[i := (?ps ! i)\<lparr>p_categoryId := None\<rparr>]\<rparr>)"
    if ex: "\<exists>p\<in>set ?ps. p_id p = ident" and wr: "\<not> gs_update_throws gs PROMPTS"
  proof -
    from ex have found: "nat ?i < length ?ps \<and> ?P (?ps ! nat ?i)"
      by (rule findIndex_found)
    from ex none have ne: "?i \<noteq> -1" by simp
    have first: "\<forall>j<nat ?i. p_id (?ps ! j) \<noteq> ident"
      using findIndex_first [of _ ?P ?ps] by blast
    have "deletePrompt gs ident =
            (Inr (), gs\<lparr>gs_prompts := ?ps[nat ?i := (?ps ! nat ?i)\<lparr>p_categoryId := None\<rparr>]\<rparr>)"
      using ne wr by (simp add: deletePrompt_def gp update_prompts_def Let_def)
    with found first show ?thesis by blast
  qed
  from a b show ?thesis by blast
qed

theorem deletePrompt_soft_delete_witness:
  "\<not> gs_get_throws (healthy [p2, p1] []) PROMPTS \<and>
   (\<exists>p\<in>set (gs_prompts (healthy [p2, p1] [])). p_id p = js ''p1'') \<and>
   \<not> gs_update_throws (healthy [p2, p1] []) PROMPTS \<and>
   fst (deletePrompt (healthy [p2, p1] []) (js ''p1'')) \<noteq> Inl (PromptNotFound (js ''p1'')) \<and>
   deletePrompt (healthy [p2, p1] []) (js ''p1'') =
     (Inr (), healthy [p2, p1\<lparr>p_categoryId := None\<rparr>] []) \<and>
   fst (deletePrompt (healthy [p2, p1] []) (js ''zz'')) = Inl (PromptNotFound (js ''zz''))"
proof -
  have h: "\<not> gs_get_throws (healthy [p2, p1] []) PROMPTS" by (simp add: healthy_def)
  have e: "deletePrompt (healthy [p2, p1] []) (js ''p1'') =
     (Inr (), healthy [p2, p1\<lparr>p_categoryId := None\<rparr>] [])"
    by (simp add: deletePrompt_def getPrompts_def get_prompts_def update_prompts_def
        healthy_def p1_def p2_def js_def)
  from deletePrompt_soft_delete [OF h, of "js ''p1''"] deletePrompt_soft_delete [OF h, of "js ''zz''"] e
  show ?thesis
    by (simp add: healthy_def p1_def p2_def js_def)
qed

lemma createdAt_copy:
  "category\<lparr>c_createdAt :=
      (case c_createdAt category of Some d \<Rightarrow> Some d | None \<Rightarrow> None)\<rparr> = category"
  by (cases "c_createdAt category") simp_all

lemma getCategories_readable:
  "\<not> gs_get_throws gs CATEGORIES \<Longrightarrow> getCategories gs = Inr (gs_categories gs)"
  by (simp add: getCategories_def get_categories_def createdAt_copy)

lemma getCategories_subset:
  "getCategories gs = Inr cs \<Longrightarrow> cs = gs_categories gs \<or> cs = []"
  using getCategories_readable [of gs]
  by (cases "gs_get_throws gs CATEGORIES") (auto simp: getCategories_def get_categories_def)

lemma getPrompts_subset:
  "getPrompts gs = Inr ps \<Longrightarrow> ps = gs_prompts gs \<or> ps = []"
  by (cases "gs_get_throws gs PROMPTS") (auto simp: getPrompts_def get_prompts_def)

lemma filter_length_eq: "(length (filter P xs) = length xs) = (\<forall>x\<in>set xs. P x)"
proof (induction xs)
  case Nil
  show ?case by simp
next
  case (Cons a xs)
  have "length (filter P xs) \<le> length xs" by (rule length_filter_le)
  then have lt: "length (filter P xs) \<noteq> Suc (length xs)" by linarith
  show ?case
  proof (cases "P a")
    case True
    with Cons show ?thesis by simp
  next
    case False
    with lt show ?thesis by simp
  qed
qed

text \<open>
  C3. \<open>deleteCategory(id)\<close> rejects with the not-found error and leaves the store as it
  was when no stored category has that id. When one has it and the store works, the call
  resolves, the categories with that id are removed and every prompt that referenced the
  id has its \<open>categoryId\<close> cleared. In any case, once the call has resolved, no stored
  category has the id and no prompt returned by \<open>getPrompts()\<close> refers to it.
\<close>

theorem deleteCategory_cascade:
  "((\<forall>c\<in>set (gs_categories gs). c_id c \<noteq> ident) \<longrightarrow>
      deleteCategory gs ident = (Inl (CategoryNotFound ident), gs)) \<and>
   ((\<exists>c\<in>set (gs_categories gs). c_id c = ident) \<and>
    \<not> gs_get_throws gs CATEGORIES \<and> \<not> gs_get_throws gs PROMPTS \<and>
    \<not> gs_update_throws gs CATEGORIES \<and> \<not> gs_update_throws gs PROMPTS \<longrightarrow>
      deleteCategory gs ident =
        (Inr (), gs\<lparr>gs_categories := filter (\<lambda>c. c_id c \<noteq> ident) (gs_categories gs),
                     gs_prompts := map (\<lambda>p. if p_categoryId p = Some ident
                                            then p\<lparr>p_categoryId := None\<rparr> else p)
                                     (gs_prompts gs)\<rparr>)) \<and>
   (\<forall>gs' ps. deleteCategory gs ident = (Inr (), gs') \<and> getPrompts gs' = Inr ps \<longrightarrow>
      (\<forall>c\<in>set (gs_categories gs'). c_id c \<noteq> ident) \<and>
      (\<forall>p\<in>set ps. p_categoryId p \<noteq> Some ident))"
proof -
  obtain cs where gc: "getCategories gs = Inr cs" and cs: "cs = gs_categories gs \<or> cs = []"
    using getCategories_subset [of gs] by (cases "getCategories gs") (auto simp: getCategories_def split: sum.splits)
  obtain ps where gp: "getPrompts gs = Inr ps" and ps: "ps = gs_prompts gs \<or> ps = []"
    using getPrompts_subset [of gs] by (cases "getPrompts gs") (auto simp: getPrompts_def split: sum.splits)
  let ?f = "filter (\<lambda>c. c_id c \<noteq> ident) cs"
  let ?u = "map (\<lambda>p. if p_categoryId p = Some ident then p\<lparr>p_categoryId := None\<rparr> else p) ps"
  have a: "deleteCategory gs ident = (Inl (CategoryNotFound ident), gs)"
    if "\<forall>c\<in>set (gs_categories gs). c_id c \<noteq> ident"
  proof -
    from that cs have "\<forall>c\<in>set cs. c_id c \<noteq> ident" by auto
    then have "length ?f = length cs" by (simp add: filter_length_eq)
    then show ?thesis by (simp add: deleteCategory_def gc)
  qed
  have b: "deleteCategory gs ident = (Inr (), gs\<lparr>gs_categories := filter (\<lambda>c. c_id c \<noteq> ident) (gs_categories gs),
                     gs_prompts := map (\<lambda>p. if p_categoryId p = Some ident
                                            then p\<lparr>p_categoryId := None\<rparr> else p)
                                     (gs_prompts gs)\<rparr>)"
    if ex: "\<exists>c\<in>set (gs_categories gs). c_id c = ident"
      and h: "\<not> gs_get_throws gs CATEGORIES" "\<not> gs_get_throws gs PROMPTS"
        "\<not> gs_update_throws gs CATEGORIES" "\<not> gs_update_throws gs PROMPTS"
  proof -
    have c': "getCategories gs = Inr (gs_categories gs)" using h(1) by (rule getCategories_readable)
    have p': "getPrompts gs = Inr (gs_prompts gs)" using h(2) by (rule getPrompts_readable)
    from ex have "length (filter (\<lambda>c. c_id c \<noteq> ident) (gs_categories gs)) \<noteq> length (gs_categories gs)"
      by (simp add: filter_length_eq)
    then show ?thesis using h(3,4)
      by (simp add: deleteCategory_def c' p' update_categories_def update_prompts_def first_rejection_def)
  qed
  have c: "(\<forall>c\<in>set (gs_categories gs'). c_id c \<noteq> ident) \<and> (\<forall>p\<in>set qs. p_categoryId p \<noteq> Some ident)"
    if r: "deleteCategory gs ident = (Inr (), gs')" and q: "getPrompts gs' = Inr qs" for gs' qs
  proof -
    from r have ne: "length ?f \<noteq> length cs"
      by (auto simp: deleteCategory_def gc)
    with r have r': "(first_rejection (fst (update_categories gs ?f))
                        (fst (update_prompts (snd (update_categories gs ?f)) ?u)),
                      snd (update_prompts (snd (update_categories gs ?f)) ?u)) = (Inr (), gs')"
      by (simp add: deleteCategory_def gc gp Let_def split_beta)
    then have ok: "\<not> gs_update_throws gs CATEGORIES" "\<not> gs_update_throws gs PROMPTS"
      by (auto simp: update_categories_def update_prompts_def first_rejection_def split: if_splits)
    with r' have gs': "gs' = gs\<lparr>gs_categories := ?f, gs_prompts := ?u\<rparr>"
      by (simp add: update_categories_def update_prompts_def first_rejection_def)
    from q have "qs = gs_prompts gs' \<or> qs = []" by (rule getPrompts_subset)
    with gs' show ?thesis by auto
  qed
  from a b c show ?thesis by blast
qed

theorem deleteCategory_cascade_witness:
  "(\<exists>c\<in>set (gs_categories (healthy [p1, p2] [programming])). c_id c = js ''programming'') \<and>
   \<not> (\<exists>c\<in>set (gs_categories (healthy [p1, p2] [programming])). c_id c = js ''nope'') \<and>
   \<not> gs_get_throws (healthy [p1, p2] [programming]) CATEGORIES \<and>
   \<not> gs_get_throws (healthy [p1, p2] [programming]) PROMPTS \<and>
   \<not> gs_update_throws (healthy [p1, p2] [programming]) CATEGORIES \<and>
   \<not> gs_update_throws (healthy [p1, p2] [programming]) PROMPTS \<and>
   deleteCategory (healthy [p1, p2] [programming]) (js ''programming'') =
     (Inr (), healthy [p1\<lparr>p_categoryId := None\<rparr>, p2] []) \<and>
   getPrompts (healthy [p1\<lparr>p_categoryId := None\<rparr>, p2] []) =
     Inr [p1\<lparr>p_categoryId := None\<rparr>, p2] \<and>
   \<not> (\<exists>p\<in>set [p1\<lparr>p_categoryId := None\<rparr>, p2]. p_categoryId p = Some (js ''programming'')) \<and>
   deleteCategory (healthy [p1, p2] [programming]) (js ''nope'') =
     (Inl (CategoryNotFound (js ''nope'')), healthy [p1, p2] [programming])"
proof -
  let ?gs = "healthy [p1, p2] [programming]"
  have ex: "\<exists>c\<in>set (gs_categories ?gs). c_id c = js ''programming''"
    by (simp add: healthy_def programming_def)
  have nx: "\<forall>c\<in>set (gs_categories ?gs). c_id c \<noteq> js ''nope''"
    by (simp add: healthy_def programming_def js_def)
  have h: "\<not> gs_get_throws ?gs CATEGORIES" "\<not> gs_get_throws ?gs PROMPTS"
    "\<not> gs_update_throws ?gs CATEGORIES" "\<not> gs_update_throws ?gs PROMPTS"
    by (simp_all add: healthy_def)
  have upd: "?gs\<lparr>gs_categories := filter (\<lambda>c. c_id c \<noteq> js ''programming'') (gs_categories ?gs),
                 gs_prompts := map (\<lambda>p. if p_categoryId p = Some (js ''programming'')
                                        then p\<lparr>p_categoryId := None\<rparr> else p)
                                 (gs_prompts ?gs)\<rparr> =
             healthy [p1\<lparr>p_categoryId := None\<rparr>, p2] []"
    by (simp add: healthy_def programming_def p1_def p2_def)
  have gp: "getPrompts (healthy [p1\<lparr>p_categoryId := None\<rparr>, p2] []) =
     Inr [p1\<lparr>p_categoryId := None\<rparr>, p2]"
    by (simp add: getPrompts_def get_prompts_def healthy_def)
  from deleteCategory_cascade [of ?gs "js ''programming''"] ex h upd
  have d: "deleteCategory ?gs (js ''programming'') =
     (Inr (), healthy [p1\<lparr>p_categoryId := None\<rparr>, p2] [])"
    by simp
  from deleteCategory_cascade [of ?gs "js ''programming''"] d gp
  have c: "\<forall>p\<in>set [p1\<lparr>p_categoryId := None\<rparr>, p2]. p_categoryId p \<noteq> Some (js ''programming'')"
    by blast
  from deleteCategory_cascade [of ?gs "js ''nope''"] nx
  have n: "deleteCategory ?gs (js ''nope'') = (Inl (CategoryNotFound (js ''nope'')), ?gs)"
    by blast
  from ex nx h d gp c n show ?thesis by blast
qed

lemma upsert_distinct:
  assumes "distinct (map f xs)"
  shows "distinct (map f (if findIndex (\<lambda>p. f p = f y) xs \<ge> 0
                          then xs[nat (findIndex (\<lambda>p. f p = f y) xs) := y] else xs @ [y]))"
proof (cases "\<exists>x\<in>set xs. f x = f y")
  case True
  then have "nat (findIndex (\<lambda>p. f p = f y) xs) < length xs \<and>
             f (xs ! nat (findIndex (\<lambda>p. f p = f y) xs)) = f y"
    by (rule findIndex_found)
  then have "map f (xs[nat (findIndex (\<lambda>p. f p = f y) xs) := y]) = map f xs"
    by (simp add: map_list_update_same)
  moreover from True have "\<not> findIndex (\<lambda>p. f p = f y) xs < 0"
    by (simp add: findIndex_neg)
  ultimately show ?thesis using assms by simp
next
  case False
  then have "findIndex (\<lambda>p. f p = f y) xs < 0" by (simp add: findIndex_neg)
  moreover from False have "f y \<notin> f ` set xs" by auto
  ultimately show ?thesis using assms by simp
qed

lemma upsert_ids:
  "\<exists>x\<in>set xs. f x = f y \<Longrightarrow>
   findIndex (\<lambda>p. f p = f y) xs \<ge> 0 \<and>
   map f (xs[nat (findIndex (\<lambda>p. f p = f y) xs) := y]) = map f xs \<and>
   y \<in> set (xs[nat (findIndex (\<lambda>p. f p = f y) xs) := y])"
proof -
  assume ex: "\<exists>x\<in>set xs. f x = f y"
  then have fnd: "nat (findIndex (\<lambda>p. f p = f y) xs) < length xs \<and>
             f (xs ! nat (findIndex (\<lambda>p. f p = f y) xs)) = f y"
    by (rule findIndex_found)
  from ex have "\<not> findIndex (\<lambda>p. f p = f y) xs < 0" by (simp add: findIndex_neg)
  with fnd show ?thesis
    by (simp add: map_list_update_same set_update_memI)
qed

lemma push_category_ids:
  "map c_id (push_category now cs c) = map c_id cs @ [c_id c]"
  by (simp add: push_category_def)

lemma upsert_category_distinct:
  assumes "distinct (map c_id xs)"
  shows "distinct (map c_id (if findIndex (\<lambda>c. c_id c = c_id y) xs \<ge> 0
                          then xs[nat (findIndex (\<lambda>c. c_id c = c_id y) xs) := y]
                          else push_category now xs y))"
proof -
  have "map c_id (if findIndex (\<lambda>c. c_id c = c_id y) xs \<ge> 0
                          then xs[nat (findIndex (\<lambda>c. c_id c = c_id y) xs) := y]
                          else push_category now xs y) =
        map c_id (if findIndex (\<lambda>c. c_id c = c_id y) xs \<ge> 0
                          then xs[nat (findIndex (\<lambda>c. c_id c = c_id y) xs) := y]
                          else xs @ [y])"
    by (simp add: push_category_ids)
  with upsert_distinct [OF assms, of y] show ?thesis by simp
qed

lemma mergePrompts_distinct:
  "distinct (map p_id acc) \<Longrightarrow> distinct (map p_id (mergePrompts acc ps))"
proof (induction ps arbitrary: acc)
  case Nil
  then show ?case by simp
next
  case (Cons p ps)
  from upsert_distinct [OF Cons.prems, of p] Cons.IH show ?case
    by (simp add: Let_def del: distinct_map)
qed

lemma mergeCategories_distinct:
  "distinct (map c_id acc) \<Longrightarrow> distinct (map c_id (mergeCategories now acc cs))"
proof (induction cs arbitrary: acc)
  case Nil
  then show ?case by simp
next
  case (Cons c cs)
  from upsert_category_distinct [OF Cons.prems, of c now] Cons.IH show ?case
    by (simp add: Let_def del: distinct_map)
qed

lemma update_prompts_distinct:
  "distinct_ids gs \<Longrightarrow> distinct (map p_id v) \<Longrightarrow> distinct_ids (snd (update_prompts gs v))"
  by (simp add: update_prompts_def distinct_ids_def)

lemma update_categories_distinct:
  "distinct_ids gs \<Longrightarrow> distinct (map c_id v) \<Longrightarrow> distinct_ids (snd (update_categories gs v))"
  by (simp add: update_categories_def distinct_ids_def)

lemma update_settings_distinct:
  "distinct_ids gs \<Longrightarrow> distinct_ids (snd (update_settings gs v))"
  by (simp add: update_settings_def distinct_ids_def)

lemma getPrompts_distinct:
  "distinct_ids gs \<Longrightarrow> getPrompts gs = Inr ps \<Longrightarrow> distinct (map p_id ps)"
  using getPrompts_subset [of gs ps] by (auto simp: distinct_ids_def)

lemma getCategories_distinct:
  "distinct_ids gs \<Longrightarrow> getCategories gs = Inr cs \<Longrightarrow> distinct (map c_id cs)"
  using getCategories_subset [of gs cs] by (auto simp: distinct_ids_def)

lemma getPrompts_Inr: "\<exists>ps. getPrompts gs = Inr ps"
  by (simp add: getPrompts_def split: sum.split)

lemma getCategories_Inr: "\<exists>cs. getCategories gs = Inr cs"
  by (simp add: getCategories_def split: sum.split)

lemma savePrompt_distinct: "distinct_ids gs \<Longrightarrow> distinct_ids (snd (savePrompt gs p))"
proof -
  assume d: "distinct_ids gs"
  obtain ps where gp: "getPrompts gs = Inr ps" using getPrompts_Inr by blast
  from d gp have "distinct (map p_id ps)" by (rule getPrompts_distinct)
  from upsert_distinct [OF this, of p] d show ?thesis
    by (simp add: savePrompt_def gp Let_def update_prompts_distinct del: distinct_map)
qed

lemma savePrompts_distinct: "distinct_ids gs \<Longrightarrow> distinct_ids (snd (savePrompts gs qs))"
proof -
  assume d: "distinct_ids gs"
  obtain ps where gp: "getPrompts gs = Inr ps" using getPrompts_Inr by blast
  from d gp have "distinct (map p_id ps)" by (rule getPrompts_distinct)
  then have "distinct (map p_id (mergePrompts ps qs))" by (rule mergePrompts_distinct)
  with d have "distinct_ids (snd (update_prompts gs (mergePrompts ps qs)))"
    by (rule update_prompts_distinct)
  then show ?thesis
    by (cases "update_prompts gs (mergePrompts ps qs)")
      (auto simp: savePrompts_def gp Let_def split: sum.split)
qed

lemma saveCategory_distinct: "distinct_ids gs \<Longrightarrow> distinct_ids (snd (saveCategory now gs c))"
proof -
  assume d: "distinct_ids gs"
  obtain cs where gc: "getCategories gs = Inr cs" using getCategories_Inr by blast
  from d gc have "distinct (map c_id cs)" by (rule getCategories_distinct)
  from upsert_category_distinct [OF this, of c now] d show ?thesis
    by (simp add: saveCategory_def gc Let_def update_categories_distinct del: distinct_map)
qed

lemma saveCategories_distinct:
  "distinct_ids gs \<Longrightarrow> distinct_ids (snd (saveCategories now gs ds))"
proof -
  assume d: "distinct_ids gs"
  obtain cs where gc: "getCategories gs = Inr cs" using getCategories_Inr by blast
  from d gc have "distinct (map c_id cs)" by (rule getCategories_distinct)
  then have "distinct (map c_id (mergeCategories now cs ds))" by (rule mergeCategories_distinct)
  with d have "distinct_ids (snd (update_categories gs (mergeCategories now cs ds)))"
    by (rule update_categories_distinct)
  then show ?thesis
    by (cases "update_categories gs (mergeCategories now cs ds)")
      (auto simp: saveCategories_def gc Let_def split: sum.split)
qed

lemma updateCategory_distinct: "distinct_ids gs \<Longrightarrow> distinct_ids (snd (updateCategory gs c))"
proof -
  assume d: "distinct_ids gs"
  obtain cs where gc: "getCategories gs = Inr cs" using getCategories_Inr by blast
  from d gc have dc: "distinct (map c_id cs)" by (rule getCategories_distinct)
  show ?thesis
  proof (cases "findIndex (\<lambda>x. c_id x = c_id c) cs < 0")
    case True
    with d show ?thesis by (simp add: updateCategory_def gc Let_def)
  next
    case False
    with upsert_distinct [OF dc, of c]
    have "distinct (map c_id (cs[nat (findIndex (\<lambda>x. c_id x = c_id c) cs) := c]))"
      by (simp del: distinct_map)
    with d have "distinct_ids (snd (update_categories gs
                    (cs[nat (findIndex (\<lambda>x. c_id x = c_id c) cs) := c])))"
      by (rule update_categories_distinct)
    with False show ?thesis by (simp add: updateCategory_def gc Let_def)
  qed
qed

lemma deletePrompt_distinct: "distinct_ids gs \<Longrightarrow> distinct_ids (snd (deletePrompt gs i))"
proof -
  assume d: "distinct_ids gs"
  obtain ps where gp: "getPrompts gs = Inr ps" using getPrompts_Inr by blast
  from d gp have dp: "distinct (map p_id ps)" by (rule getPrompts_distinct)
  let ?k = "findIndex (\<lambda>prompt. p_id prompt = i) ps"
  show ?thesis
  proof (cases "?k = -1")
    case True
    with d show ?thesis by (simp add: deletePrompt_def gp)
  next
    case False
    then have "\<exists>x\<in>set ps. p_id x = i" by (simp add: findIndex_none)
    then have "nat ?k < length ps" using findIndex_found [of ps "\<lambda>prompt. p_id prompt = i"] by simp
    then have "map p_id (ps[nat ?k := (ps ! nat ?k)\<lparr>p_categoryId := None\<rparr>]) = map p_id ps"
      by (simp add: map_list_update_same)
    with dp have "distinct (map p_id (ps[nat ?k := (ps ! nat ?k)\<lparr>p_categoryId := None\<rparr>]))"
      by simp
    with d have "distinct_ids (snd (update_prompts gs (ps[nat ?k := (ps ! nat ?k)\<lparr>p_categoryId := None\<rparr>])))"
      by (rule update_prompts_distinct)
    with False show ?thesis by (simp add: deletePrompt_def gp Let_def)
  qed
qed

lemma map_clear_ids:
  "map p_id (map (\<lambda>prompt. if p_categoryId prompt = Some i
                            then prompt\<lparr>p_categoryId := None\<rparr> else prompt) ps) = map p_id ps"
  by (induction ps) auto

lemma deleteCategory_distinct: "distinct_ids gs \<Longrightarrow> distinct_ids (snd (deleteCategory gs i))"
proof -
  assume d: "distinct_ids gs"
  obtain ps where gp: "getPrompts gs = Inr ps" using getPrompts_Inr by blast
  obtain cs where gc: "getCategories gs = Inr cs" using getCategories_Inr by blast
  from d gp have dp: "distinct (map p_id ps)" by (rule getPrompts_distinct)
  from d gc have dc: "distinct (map c_id cs)" by (rule getCategories_distinct)
  let ?f = "filter (\<lambda>category. c_id category \<noteq> i) cs"
  let ?u = "map (\<lambda>prompt. if p_categoryId prompt = Some i
                            then prompt\<lparr>p_categoryId := None\<rparr> else prompt) ps"
  from dc have "distinct (map c_id ?f)" by (simp add: distinct_map_filter)
  with d have 1: "distinct_ids (snd (update_categories gs ?f))"
    by (rule update_categories_distinct)
  from dp have "distinct (map p_id ?u)" by (simp only: map_clear_ids)
  with 1 have "distinct_ids (snd (update_prompts (snd (update_categories gs ?f)) ?u))"
    by (rule update_prompts_distinct)
  with d show ?thesis
    by (simp add: deleteCategory_def gp gc Let_def split_beta)
qed

lemma clearAll_distinct: "distinct_ids gs \<Longrightarrow> distinct_ids (snd (clearAll gs))"
proof -
  assume d: "distinct_ids gs"
  then have "distinct_ids (snd (update_prompts gs []))"
    by (simp add: update_prompts_distinct)
  then have "distinct_ids (snd (update_categories (snd (update_prompts gs [])) []))"
    by (simp add: update_categories_distinct)
  then have "distinct_ids (snd (update_settings
               (snd (update_categories (snd (update_prompts gs [])) [])) []))"
    by (rule update_settings_distinct)
  then show ?thesis by (simp add: clearAll_def split_beta)
qed

lemma upsert_length: 
  "length xs \<le> length (if findIndex P xs \<ge> 0 then xs[nat (findIndex P xs) := y] else xs @ [y])"
  by simp

lemma upsert_member:
  "y \<in> set (if findIndex (\<lambda>p. f p = f y) xs \<ge> 0
              then xs[nat (findIndex (\<lambda>p. f p = f y) xs) := y] else xs @ [y])"
proof (cases "\<exists>x\<in>set xs. f x = f y")
  case True
  from upsert_ids [OF True] show ?thesis by simp
next
  case False
  then have "findIndex (\<lambda>p. f p = f y) xs < 0" by (simp add: findIndex_neg)
  then show ?thesis by simp
qed

lemma upsert_other:
  "k < length xs \<Longrightarrow> f (xs ! k) \<noteq> f y \<Longrightarrow>
   (if findIndex (\<lambda>p. f p = f y) xs \<ge> 0
    then xs[nat (findIndex (\<lambda>p. f p = f y) xs) := y] else xs @ [y]) ! k = xs ! k"
proof (cases "\<exists>x\<in>set xs. f x = f y")
  case True
  assume k: "k < length xs" "f (xs ! k) \<noteq> f y"
  from findIndex_found [OF True] have "f (xs ! nat (findIndex (\<lambda>p. f p = f y) xs)) = f y" by simp
  with k have "nat (findIndex (\<lambda>p. f p = f y) xs) \<noteq> k" by auto
  moreover from True have "\<not> findIndex (\<lambda>p. f p = f y) xs < 0" by (simp add: findIndex_neg)
  ultimately show ?thesis by simp
next
  case False
  assume k: "k < length xs"
  from False have "findIndex (\<lambda>p. f p = f y) xs < 0" by (simp add: findIndex_neg)
  with k show ?thesis by (simp add: nth_append)
qed

lemma upsert_ids_cases:
  "map f (if findIndex (\<lambda>p. f p = f y) xs \<ge> 0
          then xs[nat (findIndex (\<lambda>p. f p = f y) xs) := y] else xs @ [y]) =
   (if f y \<in> f ` set xs then map f xs else map f xs @ [f y])"
proof (cases "\<exists>x\<in>set xs. f x = f y")
  case True
  then have "f y \<in> f ` set xs" by (metis imageI)
  with upsert_ids [OF True] show ?thesis by simp
next
  case False
  then have "findIndex (\<lambda>p. f p = f y) xs < 0" by (simp add: findIndex_neg)
  moreover from False have "f y \<notin> f ` set xs" by (metis imageE)
  ultimately show ?thesis by simp
qed

lemma mergePrompts_length: "length acc \<le> length (mergePrompts acc ps)"
proof (induction ps arbitrary: acc)
  case Nil
  show ?case by simp
next
  case (Cons p ps)
  let ?acc' = "if findIndex (\<lambda>q. p_id q = p_id p) acc \<ge> 0
               then acc[nat (findIndex (\<lambda>q. p_id q = p_id p) acc) := p] else acc @ [p]"
  have "length acc \<le> length ?acc'" by simp
  also have "\<dots> \<le> length (mergePrompts ?acc' ps)" by (rule Cons.IH)
  finally show ?case by (simp add: Let_def)
qed

lemma mergePrompts_ids_same:
  "set (map p_id ps) \<subseteq> set (map p_id acc) \<Longrightarrow> map p_id (mergePrompts acc ps) = map p_id acc"
proof (induction ps arbitrary: acc)
  case Nil
  show ?case by simp
next
  case (Cons p ps)
  let ?acc' = "if findIndex (\<lambda>q. p_id q = p_id p) acc \<ge> 0
               then acc[nat (findIndex (\<lambda>q. p_id q = p_id p) acc) := p] else acc @ [p]"
  from Cons.prems have "p_id p \<in> p_id ` set acc" by auto
  then have ids: "map p_id ?acc' = map p_id acc"
    using upsert_ids_cases [of p_id p acc] by simp
  with Cons.prems have "set (map p_id ps) \<subseteq> set (map p_id ?acc')" by simp
  then have "map p_id (mergePrompts ?acc' ps) = map p_id ?acc'" by (rule Cons.IH)
  with ids show ?case by (simp add: Let_def)
qed

lemma mergePrompts_ids_prefix:
  "take (length acc) (map p_id (mergePrompts acc ps)) = map p_id acc"
proof (induction ps arbitrary: acc)
  case Nil
  show ?case by simp
next
  case (Cons p ps)
  let ?acc' = "if findIndex (\<lambda>q. p_id q = p_id p) acc \<ge> 0
               then acc[nat (findIndex (\<lambda>q. p_id q = p_id p) acc) := p] else acc @ [p]"
  have le: "length acc \<le> length ?acc'" by simp
  have "take (length ?acc') (map p_id (mergePrompts ?acc' ps)) = map p_id ?acc'" by (rule Cons.IH)
  then have "take (length acc) (take (length ?acc') (map p_id (mergePrompts ?acc' ps))) =
             take (length acc) (map p_id ?acc')" by simp
  with le have "take (length acc) (map p_id (mergePrompts ?acc' ps)) =
                take (length acc) (map p_id ?acc')" by (simp add: min_def)
  also have "\<dots> = map p_id acc"
    using upsert_ids_cases [of p_id p acc] by (simp split: if_splits)
  finally show ?case by (simp add: Let_def)
qed

lemma mergePrompts_other:
  "k < length acc \<Longrightarrow> p_id (acc ! k) \<notin> p_id ` set ps \<Longrightarrow> mergePrompts acc ps ! k = acc ! k"
proof (induction ps arbitrary: acc)
  case Nil
  show ?case by simp
next
  case (Cons p ps)
  let ?acc' = "if findIndex (\<lambda>q. p_id q = p_id p) acc \<ge> 0
               then acc[nat (findIndex (\<lambda>q. p_id q = p_id p) acc) := p] else acc @ [p]"
  from Cons.prems have ne: "p_id (acc ! k) \<noteq> p_id p" by auto
  with Cons.prems(1) have same: "?acc' ! k = acc ! k" by (rule upsert_other)
  have k': "k < length ?acc'" using Cons.prems(1) by simp
  from same Cons.prems(2) have "p_id (?acc' ! k) \<notin> p_id ` set ps" by auto
  with k' have "mergePrompts ?acc' ps ! k = ?acc' ! k" by (rule Cons.IH)
  with same show ?case by (simp add: Let_def)
qed

lemma mergePrompts_last:
  "i < length ps \<Longrightarrow> \<forall>j. i < j \<and> j < length ps \<longrightarrow> p_id (ps ! j) \<noteq> p_id (ps ! i) \<Longrightarrow>
   ps ! i \<in> set (mergePrompts acc ps)"
proof (induction ps arbitrary: acc i)
  case Nil
  then show ?case by simp
next
  case (Cons p ps)
  let ?acc' = "if findIndex (\<lambda>q. p_id q = p_id p) acc \<ge> 0
               then acc[nat (findIndex (\<lambda>q. p_id q = p_id p) acc) := p] else acc @ [p]"
  show ?case
  proof (cases i)
    case 0
    have "p \<in> set ?acc'" by (rule upsert_member)
    then obtain k where k: "k < length ?acc'" "?acc' ! k = p" by (auto simp: in_set_conv_nth)
    from Cons.prems(2) 0 have "\<forall>j<length ps. p_id (ps ! j) \<noteq> p_id p" by auto
    then have "p_id p \<notin> p_id ` set ps" by (auto simp: in_set_conv_nth)
    with k have "mergePrompts ?acc' ps ! k = p"
      using mergePrompts_other [of k ?acc' ps] by simp
    moreover have "k < length (mergePrompts ?acc' ps)"
      using k(1) mergePrompts_length [of ?acc' ps] by linarith
    ultimately have "p \<in> set (mergePrompts ?acc' ps)" by (auto simp: in_set_conv_nth)
    with 0 show ?thesis by (simp add: Let_def)
  next
    case (Suc i')
    with Cons.prems have i': "i' < length ps" by simp
    from Cons.prems(2) Suc have "\<forall>j. i' < j \<and> j < length ps \<longrightarrow> p_id (ps ! j) \<noteq> p_id (ps ! i')"
      by auto
    with i' have "ps ! i' \<in> set (mergePrompts ?acc' ps)" by (rule Cons.IH)
    with Suc show ?thesis by (simp add: Let_def)
  qed
qed

lemma upsert_category_ids_cases:
  "map c_id (if findIndex (\<lambda>d. c_id d = c_id c) xs \<ge> 0
             then xs[nat (findIndex (\<lambda>d. c_id d = c_id c) xs) := c]
             else push_category now xs c) =
   (if c_id c \<in> c_id ` set xs then map c_id xs else map c_id xs @ [c_id c])"
proof (cases "findIndex (\<lambda>d. c_id d = c_id c) xs \<ge> 0")
  case True
  with upsert_ids_cases [of c_id c xs] show ?thesis by simp
next
  case False
  with upsert_ids_cases [of c_id c xs] show ?thesis by (simp add: push_category_ids)
qed

lemma upsert_category_member:
  "c_id c \<in> c_id ` set xs \<Longrightarrow>
   c \<in> set (if findIndex (\<lambda>d. c_id d = c_id c) xs \<ge> 0
              then xs[nat (findIndex (\<lambda>d. c_id d = c_id c) xs) := c]
              else push_category now xs c)"
proof -
  assume "c_id c \<in> c_id ` set xs"
  then have ex: "\<exists>x\<in>set xs. c_id x = c_id c" by (metis imageE)
  from upsert_ids [OF ex] show ?thesis by simp
qed

lemma upsert_category_other:
  "k < length xs \<Longrightarrow> c_id (xs ! k) \<noteq> c_id c \<Longrightarrow>
   (if findIndex (\<lambda>d. c_id d = c_id c) xs \<ge> 0
    then xs[nat (findIndex (\<lambda>d. c_id d = c_id c) xs) := c]
    else push_category now xs c) ! k = xs ! k"
proof (cases "findIndex (\<lambda>d. c_id d = c_id c) xs \<ge> 0")
  case True
  assume "k < length xs" "c_id (xs ! k) \<noteq> c_id c"
  then show ?thesis using upsert_other [of k xs c_id c] True by simp
next
  case False
  assume "k < length xs"
  with False show ?thesis by (simp add: push_category_def nth_append)
qed

lemma upsert_category_length:
  "length xs \<le> length (if findIndex P xs \<ge> 0 then xs[nat (findIndex P xs) := c]
                          else push_category now xs c)"
  by (simp add: push_category_def)

lemma mergeCategories_length: "length acc \<le> length (mergeCategories now acc cs)"
proof (induction cs arbitrary: acc)
  case Nil
  show ?case by simp
next
  case (Cons c cs)
  let ?acc' = "if findIndex (\<lambda>d. c_id d = c_id c) acc \<ge> 0
               then acc[nat (findIndex (\<lambda>d. c_id d = c_id c) acc) := c]
               else push_category now acc c"
  have "length acc \<le> length ?acc'" by (rule upsert_category_length)
  also have "\<dots> \<le> length (mergeCategories now ?acc' cs)" by (rule Cons.IH)
  finally show ?case by (simp add: Let_def)
qed

lemma mergeCategories_ids_same:
  "set (map c_id cs) \<subseteq> set (map c_id acc) \<Longrightarrow>
   map c_id (mergeCategories now acc cs) = map c_id acc"
proof (induction cs arbitrary: acc)
  case Nil
  show ?case by simp
next
  case (Cons c cs)
  let ?acc' = "if findIndex (\<lambda>d. c_id d = c_id c) acc \<ge> 0
               then acc[nat (findIndex (\<lambda>d. c_id d = c_id c) acc) := c]
               else push_category now acc c"
  from Cons.prems have "c_id c \<in> c_id ` set acc" by auto
  then have ids: "map c_id ?acc' = map c_id acc"
    using upsert_category_ids_cases [of c acc now] by simp
  with Cons.prems have "set (map c_id cs) \<subseteq> set (map c_id ?acc')" by simp
  then have "map c_id (mergeCategories now ?acc' cs) = map c_id ?acc'" by (rule Cons.IH)
  with ids show ?case by (simp add: Let_def)
qed

lemma mergeCategories_ids_prefix:
  "take (length acc) (map c_id (mergeCategories now acc cs)) = map c_id acc"
proof (induction cs arbitrary: acc)
  case Nil
  show ?case by simp
next
  case (Cons c cs)
  let ?acc' = "if findIndex (\<lambda>d. c_id d = c_id c) acc \<ge> 0
               then acc[nat (findIndex (\<lambda>d. c_id d = c_id c) acc) := c]
               else push_category now acc c"
  have le: "length acc \<le> length ?acc'" by (rule upsert_category_length)
  have "take (length ?acc') (map c_id (mergeCategories now ?acc' cs)) = map c_id ?acc'"
    by (rule Cons.IH)
  then have "take (length acc) (take (length ?acc') (map c_id (mergeCategories now ?acc' cs))) =
             take (length acc) (map c_id ?acc')" by simp
  with le have "take (length acc) (map c_id (mergeCategories now ?acc' cs)) =
                take (length acc) (map c_id ?acc')" by (simp add: min_def)
  also have "\<dots> = map c_id acc"
    using upsert_category_ids_cases [of c acc now] by (simp split: if_splits)
  finally show ?case by (simp add: Let_def)
qed

lemma mergeCategories_other:
  "k < length acc \<Longrightarrow> c_id (acc ! k) \<notin> c_id ` set cs \<Longrightarrow>
   mergeCategories now acc cs ! k = acc ! k"
proof (induction cs arbitrary: acc)
  case Nil
  show ?case by simp
next
  case (Cons c cs)
  let ?acc' = "if findIndex (\<lambda>d. c_id d = c_id c) acc \<ge> 0
               then acc[nat (findIndex (\<lambda>d. c_id d = c_id c) acc) := c]
               else push_category now acc c"
  from Cons.prems have ne: "c_id (acc ! k) \<noteq> c_id c" by auto
  with Cons.prems(1) have same: "?acc' ! k = acc ! k" by (rule upsert_category_other)
  have k': "k < length ?acc'"
    using Cons.prems(1) upsert_category_length [of acc "\<lambda>d. c_id d = c_id c" c now] by linarith
  from same Cons.prems(2) have "c_id (?acc' ! k) \<notin> c_id ` set cs" by auto
  with k' have "mergeCategories now ?acc' cs ! k = ?acc' ! k" by (rule Cons.IH)
  with same show ?case by (simp add: Let_def)
qed

lemma mergeCategories_last:
  "i < length cs \<Longrightarrow> c_id (cs ! i) \<in> c_id ` set acc \<Longrightarrow>
   \<forall>j. i < j \<and> j < length cs \<longrightarrow> c_id (cs ! j) \<noteq> c_id (cs ! i) \<Longrightarrow>
   cs ! i \<in> set (mergeCategories now acc cs)"
proof (induction cs arbitrary: acc i)
  case Nil
  then show ?case by simp
next
  case (Cons c cs)
  let ?acc' = "if findIndex (\<lambda>d. c_id d = c_id c) acc \<ge> 0
               then acc[nat (findIndex (\<lambda>d. c_id d = c_id c) acc) := c]
               else push_category now acc c"
  have sub: "c_id ` set acc \<subseteq> c_id ` set ?acc'"
  proof -
    have "set (map c_id acc) \<subseteq> set (map c_id ?acc')"
      by (simp only: upsert_category_ids_cases) auto
    then show ?thesis by simp
  qed
  show ?case
  proof (cases i)
    case 0
    with Cons.prems(2) have "c_id c \<in> c_id ` set acc" by simp
    then have "c \<in> set ?acc'" by (rule upsert_category_member)
    then obtain k where k: "k < length ?acc'" "?acc' ! k = c" by (auto simp: in_set_conv_nth)
    from Cons.prems(3) 0 have "\<forall>j<length cs. c_id (cs ! j) \<noteq> c_id c" by auto
    then have "c_id c \<notin> c_id ` set cs" by (auto simp: in_set_conv_nth)
    with k have "mergeCategories now ?acc' cs ! k = c"
      using mergeCategories_other [of k ?acc' cs now] by simp
    moreover have "k < length (mergeCategories now ?acc' cs)"
      using k(1) mergeCategories_length [of ?acc' now cs] by linarith
    ultimately have "c \<in> set (mergeCategories now ?acc' cs)" by (auto simp: in_set_conv_nth)
    with 0 show ?thesis by (simp add: Let_def)
  next
    case (Suc i')
    with Cons.prems have i': "i' < length cs" by simp
    from Cons.prems(2) Suc sub have in': "c_id (cs ! i') \<in> c_id ` set ?acc'" by auto
    from Cons.prems(3) Suc have "\<forall>j. i' < j \<and> j < length cs \<longrightarrow> c_id (cs ! j) \<noteq> c_id (cs ! i')"
      by auto
    with i' in' have "cs ! i' \<in> set (mergeCategories now ?acc' cs)" by (rule Cons.IH)
    with Suc show ?thesis by (simp add: Let_def)
  qed
qed

lemma mergePrompts_id_set:
  "set (map p_id (mergePrompts acc ps)) = set (map p_id acc) \<union> set (map p_id ps)"
proof (induction ps arbitrary: acc)
  case Nil
  show ?case by simp
next
  case (Cons p ps)
  let ?acc' = "if findIndex (\<lambda>q. p_id q = p_id p) acc \<ge> 0
               then acc[nat (findIndex (\<lambda>q. p_id q = p_id p) acc) := p] else acc @ [p]"
  have "set (map p_id ?acc') = insert (p_id p) (set (map p_id acc))"
    by (simp only: upsert_ids_cases) auto
  moreover have "set (map p_id (mergePrompts ?acc' ps)) = set (map p_id ?acc') \<union> set (map p_id ps)"
    by (rule Cons.IH)
  ultimately show ?case by (simp add: Let_def)
qed

lemma mergeCategories_id_set:
  "set (map c_id (mergeCategories now acc cs)) = set (map c_id acc) \<union> set (map c_id cs)"
proof (induction cs arbitrary: acc)
  case Nil
  show ?case by simp
next
  case (Cons c cs)
  let ?acc' = "if findIndex (\<lambda>d. c_id d = c_id c) acc \<ge> 0
               then acc[nat (findIndex (\<lambda>d. c_id d = c_id c) acc) := c]
               else push_category now acc c"
  have "set (map c_id ?acc') = insert (c_id c) (set (map c_id acc))"
    by (simp only: upsert_category_ids_cases) auto
  moreover have "set (map c_id (mergeCategories now ?acc' cs)) =
                 set (map c_id ?acc') \<union> set (map c_id cs)"
    by (rule Cons.IH)
  ultimately show ?case by (simp add: Let_def)
qed

lemma savePrompts_working:
  "\<not> gs_get_throws gs PROMPTS \<Longrightarrow> \<not> gs_update_throws gs PROMPTS \<Longrightarrow>
   gs_prompts (snd (savePrompts gs ps)) = mergePrompts (gs_prompts gs) ps"
  by (simp add: savePrompts_def getPrompts_readable update_prompts_def)

lemma saveCategories_working:
  "\<not> gs_get_throws gs CATEGORIES \<Longrightarrow> \<not> gs_update_throws gs CATEGORIES \<Longrightarrow>
   gs_categories (snd (saveCategories now gs cs)) = mergeCategories now (gs_categories gs) cs"
  by (simp add: saveCategories_def getCategories_readable update_categories_def)

lemma updateCategory_working:
  "\<exists>d\<in>set (gs_categories gs). c_id d = c_id c \<Longrightarrow>
   \<not> gs_get_throws gs CATEGORIES \<Longrightarrow> \<not> gs_update_throws gs CATEGORIES \<Longrightarrow>
   map c_id (gs_categories (snd (updateCategory gs c))) = map c_id (gs_categories gs) \<and>
   c \<in> set (gs_categories (snd (updateCategory gs c)))"
proof -
  assume ex: "\<exists>d\<in>set (gs_categories gs). c_id d = c_id c"
    and h: "\<not> gs_get_throws gs CATEGORIES" "\<not> gs_update_throws gs CATEGORIES"
  have gc: "getCategories gs = Inr (gs_categories gs)" using h(1) by (rule getCategories_readable)
  from ex have "\<not> findIndex (\<lambda>d. c_id d = c_id c) (gs_categories gs) < 0"
    by (simp add: findIndex_neg)
  with upsert_ids [OF ex] h(2) show ?thesis
    by (simp add: updateCategory_def gc Let_def update_categories_def)
qed

text \<open>
  C9. If the stored prompt ids are pairwise distinct and the stored category ids are
  pairwise distinct, they are so again in the store that each mutating method leaves
  behind (\<open>savePrompt\<close>, \<open>savePrompts\<close>, \<open>saveCategory\<close>, \<open>saveCategories\<close>,
  \<open>updateCategory\<close>, \<open>deletePrompt\<close>, \<open>deleteCategory\<close>, \<open>clearAll\<close>), whether the store
  works or fails. On a working store an upsert replaces in place and does not append:
  \<open>savePrompt\<close>, \<open>saveCategory\<close> and \<open>updateCategory\<close> with a stored id leave the list of
  ids as it was and put the new record in it; \<open>savePrompts\<close> and \<open>saveCategories\<close> leave
  the stored ids at their positions, end with exactly the stored and the incoming ids,
  leave the list of ids as it was when every incoming id is stored, store the last
  incoming record of each id (for categories: of each stored id), and leave every stored
  record whose id is not incoming as it was.
\<close>

theorem mutations_preserve_distinct_ids:
  "distinct_ids gs \<Longrightarrow>
     distinct_ids (snd (savePrompt gs p)) \<and>
     distinct_ids (snd (savePrompts gs ps)) \<and>
     distinct_ids (snd (saveCategory now gs c)) \<and>
     distinct_ids (snd (saveCategories now gs cs)) \<and>
     distinct_ids (snd (updateCategory gs c)) \<and>
     distinct_ids (snd (deletePrompt gs i)) \<and>
     distinct_ids (snd (deleteCategory gs i)) \<and>
     distinct_ids (snd (clearAll gs)) \<and>
     ((\<exists>q\<in>set (gs_prompts gs). p_id q = p_id p) \<and>
      \<not> gs_get_throws gs PROMPTS \<and> \<not> gs_update_throws gs PROMPTS \<longrightarrow>
        map p_id (gs_prompts (snd (savePrompt gs p))) = map p_id (gs_prompts gs) \<and>
        p \<in> set (gs_prompts (snd (savePrompt gs p)))) \<and>
     ((\<exists>d\<in>set (gs_categories gs). c_id d = c_id c) \<and>
      \<not> gs_get_throws gs CATEGORIES \<and> \<not> gs_update_throws gs CATEGORIES \<longrightarrow>
        map c_id (gs_categories (snd (saveCategory now gs c))) = map c_id (gs_categories gs) \<and>
        c \<in> set (gs_categories (snd (saveCategory now gs c)))) \<and>
     ((\<exists>d\<in>set (gs_categories gs). c_id d = c_id c) \<and>
      \<not> gs_get_throws gs CATEGORIES \<and> \<not> gs_update_throws gs CATEGORIES \<longrightarrow>
        map c_id (gs_categories (snd (updateCategory gs c))) = map c_id (gs_categories gs) \<and>
        c \<in> set (gs_categories (snd (updateCategory gs c)))) \<and>
     (\<not> gs_get_throws gs PROMPTS \<and> \<not> gs_update_throws gs PROMPTS \<longrightarrow>
        take (length (gs_prompts gs)) (map p_id (gs_prompts (snd (savePrompts gs ps)))) =
          map p_id (gs_prompts gs) \<and>
        set (map p_id (gs_prompts (snd (savePrompts gs ps)))) =
          set (map p_id (gs_prompts gs)) \<union> set (map p_id ps) \<and>
        (set (map p_id ps) \<subseteq> set (map p_id (gs_prompts gs)) \<longrightarrow>
           map p_id (gs_prompts (snd (savePrompts gs ps))) = map p_id (gs_prompts gs)) \<and>
        (\<forall>n<length ps. (\<forall>j. n < j \<and> j < length ps \<longrightarrow> p_id (ps ! j) \<noteq> p_id (ps ! n)) \<longrightarrow>
           ps ! n \<in> set (gs_prompts (snd (savePrompts gs ps)))) \<and>
        (\<forall>k<length (gs_prompts gs). p_id (gs_prompts gs ! k) \<notin> p_id ` set ps \<longrightarrow>
           gs_prompts (snd (savePrompts gs ps)) ! k = gs_prompts gs ! k)) \<and>
     (\<not> gs_get_throws gs CATEGORIES \<and> \<not> gs_update_throws gs CATEGORIES \<longrightarrow>
        take (length (gs_categories gs))
          (map c_id (gs_categories (snd (saveCategories now gs cs)))) =
          map c_id (gs_categories gs) \<and>
        set (map c_id (gs_categories (snd (saveCategories now gs cs)))) =
          set (map c_id (gs_categories gs)) \<union> set (map c_id cs) \<and>
        (set (map c_id cs) \<subseteq> set (map c_id (gs_categories gs)) \<longrightarrow>
           map c_id (gs_categories (snd (saveCategories now gs cs))) =
             map c_id (gs_categories gs)) \<and>
        (\<forall>n<length cs. c_id (cs ! n) \<in> c_id ` set (gs_categories gs) \<and>
             (\<forall>j. n < j \<and> j < length cs \<longrightarrow> c_id (cs ! j) \<noteq> c_id (cs ! n)) \<longrightarrow>
           cs ! n \<in> set (gs_categories (snd (saveCategories now gs cs)))) \<and>
        (\<forall>k<length (gs_categories gs). c_id (gs_categories gs ! k) \<notin> c_id ` set cs \<longrightarrow>
           gs_categories (snd (saveCategories now gs cs)) ! k = gs_categories gs ! k))"
proof -
  assume d: "distinct_ids gs"
  have a: "(\<exists>q\<in>set (gs_prompts gs). p_id q = p_id p) \<and>
      \<not> gs_get_throws gs PROMPTS \<and> \<not> gs_update_throws gs PROMPTS \<longrightarrow>
        map p_id (gs_prompts (snd (savePrompt gs p))) = map p_id (gs_prompts gs) \<and>
        p \<in> set (gs_prompts (snd (savePrompt gs p)))" (is "_ \<longrightarrow> ?A")
  proof (intro impI, elim conjE)
    assume ex: "\<exists>q\<in>set (gs_prompts gs). p_id q = p_id p"
      and h: "\<not> gs_get_throws gs PROMPTS" "\<not> gs_update_throws gs PROMPTS"
    have gp: "getPrompts gs = Inr (gs_prompts gs)" using h(1) by (rule getPrompts_readable)
    from upsert_ids [OF ex] h(2) show ?A
      by (simp add: savePrompt_def gp Let_def update_prompts_def)
  qed
  have b: "(\<exists>d\<in>set (gs_categories gs). c_id d = c_id c) \<and>
      \<not> gs_get_throws gs CATEGORIES \<and> \<not> gs_update_throws gs CATEGORIES \<longrightarrow>
        map c_id (gs_categories (snd (saveCategory now gs c))) = map c_id (gs_categories gs) \<and>
        c \<in> set (gs_categories (snd (saveCategory now gs c)))" (is "_ \<longrightarrow> ?B")
  proof (intro impI, elim conjE)
    assume ex: "\<exists>d\<in>set (gs_categories gs). c_id d = c_id c"
      and h: "\<not> gs_get_throws gs CATEGORIES" "\<not> gs_update_throws gs CATEGORIES"
    have gc: "getCategories gs = Inr (gs_categories gs)" using h(1) by (rule getCategories_readable)
    from upsert_ids [OF ex] h(2) show ?B
      by (simp add: saveCategory_def gc Let_def update_categories_def)
  qed
  have u: "(\<exists>d\<in>set (gs_categories gs). c_id d = c_id c) \<and>
      \<not> gs_get_throws gs CATEGORIES \<and> \<not> gs_update_throws gs CATEGORIES \<longrightarrow>
        map c_id (gs_categories (snd (updateCategory gs c))) = map c_id (gs_categories gs) \<and>
        c \<in> set (gs_categories (snd (updateCategory gs c)))" (is "_ \<longrightarrow> ?U")
  proof (intro impI, elim conjE)
    assume "\<exists>d\<in>set (gs_categories gs). c_id d = c_id c"
      "\<not> gs_get_throws gs CATEGORIES" "\<not> gs_update_throws gs CATEGORIES"
    then show ?U by (rule updateCategory_working)
  qed
  have e: "\<not> gs_get_throws gs PROMPTS \<and> \<not> gs_update_throws gs PROMPTS \<longrightarrow>
        take (length (gs_prompts gs)) (map p_id (gs_prompts (snd (savePrompts gs ps)))) =
          map p_id (gs_prompts gs) \<and>
        set (map p_id (gs_prompts (snd (savePrompts gs ps)))) =
          set (map p_id (gs_prompts gs)) \<union> set (map p_id ps) \<and>
        (set (map p_id ps) \<subseteq> set (map p_id (gs_prompts gs)) \<longrightarrow>
           map p_id (gs_prompts (snd (savePrompts gs ps))) = map p_id (gs_prompts gs)) \<and>
        (\<forall>n<length ps. (\<forall>j. n < j \<and> j < length ps \<longrightarrow> p_id (ps ! j) \<noteq> p_id (ps ! n)) \<longrightarrow>
           ps ! n \<in> set (gs_prompts (snd (savePrompts gs ps)))) \<and>
        (\<forall>k<length (gs_prompts gs). p_id (gs_prompts gs ! k) \<notin> p_id ` set ps \<longrightarrow>
           gs_prompts (snd (savePrompts gs ps)) ! k = gs_prompts gs ! k)"
  proof (intro impI, elim conjE)
    assume h: "\<not> gs_get_throws gs PROMPTS" "\<not> gs_update_throws gs PROMPTS"
    let ?new = "mergePrompts (gs_prompts gs) ps"
    have 1: "take (length (gs_prompts gs)) (map p_id ?new) = map p_id (gs_prompts gs)"
      by (rule mergePrompts_ids_prefix)
    have 2: "set (map p_id ?new) = set (map p_id (gs_prompts gs)) \<union> set (map p_id ps)"
      by (rule mergePrompts_id_set)
    have 3: "set (map p_id ps) \<subseteq> set (map p_id (gs_prompts gs)) \<longrightarrow>
           map p_id ?new = map p_id (gs_prompts gs)"
      using mergePrompts_ids_same [of ps "gs_prompts gs"] by (intro impI)
    have 4: "\<forall>n<length ps. (\<forall>j. n < j \<and> j < length ps \<longrightarrow> p_id (ps ! j) \<noteq> p_id (ps ! n)) \<longrightarrow>
           ps ! n \<in> set ?new"
      using mergePrompts_last [of _ ps "gs_prompts gs"] by (intro allI impI)
    have 5: "\<forall>k<length (gs_prompts gs). p_id (gs_prompts gs ! k) \<notin> p_id ` set ps \<longrightarrow>
           ?new ! k = gs_prompts gs ! k"
      using mergePrompts_other [of _ "gs_prompts gs" ps] by (intro allI impI)
    show "take (length (gs_prompts gs)) (map p_id (gs_prompts (snd (savePrompts gs ps)))) =
          map p_id (gs_prompts gs) \<and>
        set (map p_id (gs_prompts (snd (savePrompts gs ps)))) =
          set (map p_id (gs_prompts gs)) \<union> set (map p_id ps) \<and>
        (set (map p_id ps) \<subseteq> set (map p_id (gs_prompts gs)) \<longrightarrow>
           map p_id (gs_prompts (snd (savePrompts gs ps))) = map p_id (gs_prompts gs)) \<and>
        (\<forall>n<length ps. (\<forall>j. n < j \<and> j < length ps \<longrightarrow> p_id (ps ! j) \<noteq> p_id (ps ! n)) \<longrightarrow>
           ps ! n \<in> set (gs_prompts (snd (savePrompts gs ps)))) \<and>
        (\<forall>k<length (gs_prompts gs). p_id (gs_prompts gs ! k) \<notin> p_id ` set ps \<longrightarrow>
           gs_prompts (snd (savePrompts gs ps)) ! k = gs_prompts gs ! k)"
      unfolding savePrompts_working [OF h] by (intro conjI 1 2 3 4 5)
  qed
  have f: "\<not> gs_get_throws gs CATEGORIES \<and> \<not> gs_update_throws gs CATEGORIES \<longrightarrow>
        take (length (gs_categories gs))
          (map c_id (gs_categories (snd (saveCategories now gs cs)))) =
          map c_id (gs_categories gs) \<and>
        set (map c_id (gs_categories (snd (saveCategories now gs cs)))) =
          set (map c_id (gs_categories gs)) \<union> set (map c_id cs) \<and>
        (set (map c_id cs) \<subseteq> set (map c_id (gs_categories gs)) \<longrightarrow>
           map c_id (gs_categories (snd (saveCategories now gs cs))) =
             map c_id (gs_categories gs)) \<and>
        (\<forall>n<length cs. c_id (cs ! n) \<in> c_id ` set (gs_categories gs) \<and>
             (\<forall>j. n < j \<and> j < length cs \<longrightarrow> c_id (cs ! j) \<noteq> c_id (cs ! n)) \<longrightarrow>
           cs ! n \<in> set (gs_categories (snd (saveCategories now gs cs)))) \<and>
        (\<forall>k<length (gs_categories gs). c_id (gs_categories gs ! k) \<notin> c_id ` set cs \<longrightarrow>
           gs_categories (snd (saveCategories now gs cs)) ! k = gs_categories gs ! k)"
  proof (intro impI, elim conjE)
    assume h: "\<not> gs_get_throws gs CATEGORIES" "\<not> gs_update_throws gs CATEGORIES"
    let ?new = "mergeCategories now (gs_categories gs) cs"
    have 1: "take (length (gs_categories gs)) (map c_id ?new) = map c_id (gs_categories gs)"
      by (rule mergeCategories_ids_prefix)
    have 2: "set (map c_id ?new) = set (map c_id (gs_categories gs)) \<union> set (map c_id cs)"
      by (rule mergeCategories_id_set)
    have 3: "set (map c_id cs) \<subseteq> set (map c_id (gs_categories gs)) \<longrightarrow>
           map c_id ?new = map c_id (gs_categories gs)"
      using mergeCategories_ids_same [of cs "gs_categories gs" now] by (intro impI)
    have 4: "\<forall>n<length cs. c_id (cs ! n) \<in> c_id ` set (gs_categories gs) \<and>
             (\<forall>j. n < j \<and> j < length cs \<longrightarrow> c_id (cs ! j) \<noteq> c_id (cs ! n)) \<longrightarrow>
           cs ! n \<in> set ?new"
      using mergeCategories_last [of _ cs "gs_categories gs" now]
      by (intro allI impI) (elim conjE)
    have 5: "\<forall>k<length (gs_categories gs). c_id (gs_categories gs ! k) \<notin> c_id ` set cs \<longrightarrow>
           ?new ! k = gs_categories gs ! k"
      using mergeCategories_other [of _ "gs_categories gs" cs now] by (intro allI impI)
    show "take (length (gs_categories gs))
          (map c_id (gs_categories (snd (saveCategories now gs cs)))) =
          map c_id (gs_categories gs) \<and>
        set (map c_id (gs_categories (snd (saveCategories now gs cs)))) =
          set (map c_id (gs_categories gs)) \<union> set (map c_id cs) \<and>
        (set (map c_id cs) \<subseteq> set (map c_id (gs_categories gs)) \<longrightarrow>
           map c_id (gs_categories (snd (saveCategories now gs cs))) =
             map c_id (gs_categories gs)) \<and>
        (\<forall>n<length cs. c_id (cs ! n) \<in> c_id ` set (gs_categories gs) \<and>
             (\<forall>j. n < j \<and> j < length cs \<longrightarrow> c_id (cs ! j) \<noteq> c_id (cs ! n)) \<longrightarrow>
           cs ! n \<in> set (gs_categories (snd (saveCategories now gs cs)))) \<and>
        (\<forall>k<length (gs_categories gs). c_id (gs_categories gs ! k) \<notin> c_id ` set cs \<longrightarrow>
           gs_categories (snd (saveCategories now gs cs)) ! k = gs_categories gs ! k)"
      unfolding saveCategories_working [OF h] by (intro conjI 1 2 3 4 5)
  qed
  show ?thesis
    by (intro conjI savePrompt_distinct [OF d] savePrompts_distinct [OF d]
        saveCategory_distinct [OF d] saveCategories_distinct [OF d]
        updateCategory_distinct [OF d] deletePrompt_distinct [OF d]
        deleteCategory_distinct [OF d] clearAll_distinct [OF d] a b u e f)
qed

theorem mutations_preserve_distinct_ids_witness:
  "distinct_ids (healthy [p1, p2] [programming]) \<and>
   (\<exists>q\<in>set (gs_prompts (healthy [p1, p2] [programming])). p_id q = p_id (p1\<lparr>p_title := js ''Sorted''\<rparr>)) \<and>
   \<not> gs_get_throws (healthy [p1, p2] [programming]) PROMPTS \<and>
   \<not> gs_update_throws (healthy [p1, p2] [programming]) PROMPTS \<and>
   distinct_ids (snd (savePrompt (healthy [p1, p2] [programming]) (p1\<lparr>p_title := js ''Sorted''\<rparr>))) \<and>
   map p_id (gs_prompts (snd (savePrompt (healthy [p1, p2] [programming]) (p1\<lparr>p_title := js ''Sorted''\<rparr>))))
     = [js ''p1'', js ''p2''] \<and>
   snd (savePrompt (healthy [p1, p2] [programming]) (p1\<lparr>p_title := js ''Sorted''\<rparr>)) =
     healthy [p1\<lparr>p_title := js ''Sorted''\<rparr>, p2] [programming] \<and>
   distinct_ids (snd (savePrompts (healthy [p1, p2] [programming])
                        [p1\<lparr>p_title := js ''A''\<rparr>, p1\<lparr>p_title := js ''Sorted''\<rparr>])) \<and>
   map p_id (gs_prompts (snd (savePrompts (healthy [p1, p2] [programming])
                        [p1\<lparr>p_title := js ''A''\<rparr>, p1\<lparr>p_title := js ''Sorted''\<rparr>])))
     = [js ''p1'', js ''p2''] \<and>
   p1\<lparr>p_title := js ''Sorted''\<rparr> \<in>
     set (gs_prompts (snd (savePrompts (healthy [p1, p2] [programming])
                        [p1\<lparr>p_title := js ''A''\<rparr>, p1\<lparr>p_title := js ''Sorted''\<rparr>]))) \<and>
   gs_prompts (snd (savePrompts (healthy [p1, p2] [programming])
                        [p1\<lparr>p_title := js ''A''\<rparr>, p1\<lparr>p_title := js ''Sorted''\<rparr>])) =
     [p1\<lparr>p_title := js ''Sorted''\<rparr>, p2]"
proof -
  let ?gs = "healthy [p1, p2] [programming]"
  let ?p = "p1\<lparr>p_title := js ''Sorted''\<rparr>"
  let ?ps = "[p1\<lparr>p_title := js ''A''\<rparr>, p1\<lparr>p_title := js ''Sorted''\<rparr>]"
  have d: "distinct_ids ?gs"
    by (simp add: distinct_ids_def healthy_def p1_def p2_def js_def)
  have h: "\<not> gs_get_throws ?gs PROMPTS" "\<not> gs_update_throws ?gs PROMPTS"
    by (simp_all add: healthy_def)
  have ex: "\<exists>q\<in>set (gs_prompts ?gs). p_id q = p_id ?p"
    by (simp add: healthy_def)
  have ids: "map p_id (gs_prompts ?gs) = [js ''p1'', js ''p2'']"
    by (simp add: healthy_def p1_def p2_def)
  have sub: "set (map p_id ?ps) \<subseteq> set (map p_id (gs_prompts ?gs))"
    by (simp add: healthy_def)
  have last: "\<forall>j. 1 < j \<and> j < length ?ps \<longrightarrow> p_id (?ps ! j) \<noteq> p_id (?ps ! 1)"
    by simp
  have e: "snd (savePrompt ?gs ?p) = healthy [?p, p2] [programming]"
    by (simp add: savePrompt_def getPrompts_def get_prompts_def update_prompts_def
        healthy_def p1_def p2_def)
  have b: "gs_prompts (snd (savePrompts ?gs ?ps)) = [?p, p2]"
    by (simp add: savePrompts_def getPrompts_def get_prompts_def update_prompts_def
        healthy_def p1_def p2_def)
  note t = mutations_preserve_distinct_ids [OF d, of ?p ?ps 0 programming "[]" "[]"]
  from t have 1: "distinct_ids (snd (savePrompt ?gs ?p))" by blast
  from t ex h have 2: "map p_id (gs_prompts (snd (savePrompt ?gs ?p))) = map p_id (gs_prompts ?gs)"
    by blast
  from t have 3: "distinct_ids (snd (savePrompts ?gs ?ps))" by blast
  from t h sub have 4: "map p_id (gs_prompts (snd (savePrompts ?gs ?ps))) = map p_id (gs_prompts ?gs)"
    by blast
  from t h have all: "\<forall>n<length ?ps. (\<forall>j. n < j \<and> j < length ?ps \<longrightarrow> p_id (?ps ! j) \<noteq> p_id (?ps ! n)) \<longrightarrow>
           ?ps ! n \<in> set (gs_prompts (snd (savePrompts ?gs ?ps)))"
    by blast
  have len: "1 < length ?ps" by simp
  from all len last have "?ps ! 1 \<in> set (gs_prompts (snd (savePrompts ?gs ?ps)))" by blast
  then have 5: "?p \<in> set (gs_prompts (snd (savePrompts ?gs ?ps)))" by simp
  show ?thesis
    by (intro conjI d ex h 1 e 3 5 b) (simp_all only: 2 4 ids)
qed










section \<open>PromptManager.searchPrompts: properties\<close>

lemma trim_whitespace_only: "\<forall>c\<in>set s. isWhiteSpace c \<Longrightarrow> trim s = []"
proof -
  assume "\<forall>c\<in>set s. isWhiteSpace c"
  then have d: "dropWhile isWhiteSpace s = []" by (induction s) auto
  show ?thesis unfolding trim_def d by simp
qed

lemma trim_blank_iff: "(trim s = []) = (\<forall>c\<in>set s. isWhiteSpace c)"
proof
  assume "trim s = []"
  then have "dropWhile isWhiteSpace (rev (dropWhile isWhiteSpace s)) = []" by (simp add: trim_def)
  then have "\<forall>c\<in>set (rev (dropWhile isWhiteSpace s)). isWhiteSpace c"
    by (simp only: dropWhile_eq_Nil_conv)
  then have "\<forall>c\<in>set (dropWhile isWhiteSpace s). isWhiteSpace c" by simp
  then have "dropWhile isWhiteSpace s = []"
    by (metis dropWhile_eq_Nil_conv hd_dropWhile list.set_sel(1))
  then show "\<forall>c\<in>set s. isWhiteSpace c" by (simp only: dropWhile_eq_Nil_conv)
next
  assume "\<forall>c\<in>set s. isWhiteSpace c"
  then show "trim s = []" by (rule trim_whitespace_only)
qed

text \<open>
  C10. With a keyword that is empty or consists of white space only, \<open>searchPrompts\<close>
  returns what \<open>getPrompts()\<close> returns, whatever the options are: all stored prompts,
  in their order, when the store can be read.
\<close>

theorem searchPrompts_blank_keyword:
  "keyword = [] \<or> (\<forall>c\<in>set keyword. isWhiteSpace c) \<Longrightarrow>
     searchPrompts h gs keyword options = getPrompts gs \<and>
     (\<not> gs_get_throws gs PROMPTS \<longrightarrow>
        searchPrompts h gs keyword options = Inr (gs_prompts gs))"
proof -
  assume "keyword = [] \<or> (\<forall>c\<in>set keyword. isWhiteSpace c)"
  then have blank: "keyword = [] \<or> trim keyword = []" by (auto simp: trim_whitespace_only)
  obtain ps where gp: "getPrompts gs = Inr ps" using getPrompts_Inr by blast
  obtain cs where gc: "getCategories gs = Inr cs" using getCategories_Inr by blast
  from blank have a: "searchPrompts h gs keyword options = getPrompts gs"
    by (auto simp: searchPrompts_def gp gc)
  then show ?thesis using getPrompts_readable [of gs] by auto
qed

theorem searchPrompts_blank_keyword_witness:
  "searchPrompts ascii_host (healthy [p1, p2] [programming]) (js ''  '')
     (Some \<lparr>so_query = js ''  '', so_categoryId = None, so_tags = None,
            so_includeContent = Some False, so_includeDescription = None,
            so_includeTags = Some False, so_sortBy = None, so_sortDirection = None\<rparr>)
     = Inr [p1, p2]"
proof -
  have ws: "js ''  '' = [] \<or> (\<forall>c\<in>set (js ''  ''). isWhiteSpace c)"
    by (simp add: js_def isWhiteSpace_def)
  have "getPrompts (healthy [p1, p2] [programming]) = Inr [p1, p2]"
    by (simp add: getPrompts_def get_prompts_def healthy_def)
  with searchPrompts_blank_keyword [OF ws, of ascii_host "healthy [p1, p2] [programming]"]
  show ?thesis by simp
qed

section \<open>PromptTreeDataProvider: the hierarchical projection\<close>

lemma getCategoryPromptCount_given:
  "getCategoryPromptCount gs i (Some ps) = Inr (length (filter (\<lambda>p. p_categoryId p = Some i) ps))"
  by (simp add: getCategoryPromptCount_def)

lemma pushCategoryItems_map:
  "pushCategoryItems gs prompts rootItems categories =
     Inr (rootItems @
          map (\<lambda>c. createCategoryItem c
                      (length (filter (\<lambda>p. p_categoryId p = Some (c_id c)) prompts)))
            categories)"
  by (induction categories arbitrary: rootItems) (simp_all add: getCategoryPromptCount_given)

lemma isUncategorized_iff:
  "isUncategorized categories p =
     (p_categoryId p = None \<or> p_categoryId p = Some [] \<or>
      (\<forall>c\<in>set categories. Some (c_id c) \<noteq> p_categoryId p))"
  by (cases "p_categoryId p") (auto simp: isUncategorized_def truthy_def list_ex_iff)

text \<open>
  C1, as amended. With no search filter active, \<open>getRootItems()\<close> returns one category
  item per category that \<open>getCategories()\<close> returns, in that order, labelled with the
  name and the number of prompts whose \<open>categoryId\<close> is the category's id; and after them
  exactly one uncategorized item, labelled with the number of such prompts, if and only
  if some prompt has a \<open>categoryId\<close> that is absent, empty, or the id of no category.
\<close>

theorem getRootItems_hierarchy:
  "\<not> (truthy (searchFilter this) \<and> trim (the (searchFilter this)) \<noteq> []) \<Longrightarrow>
   getPrompts gs = Inr prompts \<Longrightarrow> getCategories gs = Inr categories \<Longrightarrow>
   fst (getRootItems h this gs) =
     Inr (map (\<lambda>c. createCategoryItem c
                      (length (filter (\<lambda>p. p_categoryId p = Some (c_id c)) prompts)))
            categories @
          (if \<exists>p\<in>set prompts.
                 p_categoryId p = None \<or> p_categoryId p = Some [] \<or>
                 (\<forall>c\<in>set categories. Some (c_id c) \<noteq> p_categoryId p)
           then [createUncategorizedCategory
                   (length (filter (\<lambda>p. p_categoryId p = None \<or> p_categoryId p = Some [] \<or>
                                         (\<forall>c\<in>set categories. Some (c_id c) \<noteq> p_categoryId p))
                              prompts))]
           else [])) \<and>
   (\<forall>c n. t_label (createCategoryItem c n) = c_name c @ js '' ('' @ numberToString n @ js '')'' \<and>
          t_id (createCategoryItem c n) = c_id c \<and>
          t_contextValue (createCategoryItem c n) = CATEGORY_ITEM) \<and>
   (\<forall>n. t_label (createUncategorizedCategory n) =
            uncategorized_name @ js '' ('' @ numberToString n @ js '')'' \<and>
        t_id (createUncategorizedCategory n) = UNCATEGORIZED \<and>
        t_contextValue (createUncategorizedCategory n) = CATEGORY_ITEM)"
proof -
  assume nf: "\<not> (truthy (searchFilter this) \<and> trim (the (searchFilter this)) \<noteq> [])"
    and gp: "getPrompts gs = Inr prompts" and gc: "getCategories gs = Inr categories"
  let ?unc = "filter (isUncategorized categories) prompts"
  have u: "isUncategorized categories =
      (\<lambda>p. p_categoryId p = None \<or> p_categoryId p = Some [] \<or>
                                         (\<forall>c\<in>set categories. Some (c_id c) \<noteq> p_categoryId p))"
    by (rule ext) (rule isUncategorized_iff)
  have ne: "(length ?unc > 0) = (\<exists>p\<in>set prompts. isUncategorized categories p)"
    by (simp add: filter_empty_conv)
  have "fst (getRootItems h this gs) =
     Inr (map (\<lambda>c. createCategoryItem c
                      (length (filter (\<lambda>p. p_categoryId p = Some (c_id c)) prompts)))
            categories @
          (if \<exists>p\<in>set prompts. isUncategorized categories p
           then [createUncategorizedCategory (length ?unc)] else []))"
  proof -
    from nf have off: "(truthy (searchFilter this) \<and> trim (the (searchFilter this)) \<noteq> []) = False"
      by blast
    show ?thesis using ne
      by (simp add: getRootItems_def off gp gc pushCategoryItems_map Let_def)
  qed
  then have a: "fst (getRootItems h this gs) =
     Inr (map (\<lambda>c. createCategoryItem c
                      (length (filter (\<lambda>p. p_categoryId p = Some (c_id c)) prompts)))
            categories @
          (if \<exists>p\<in>set prompts.
                 p_categoryId p = None \<or> p_categoryId p = Some [] \<or>
                 (\<forall>c\<in>set categories. Some (c_id c) \<noteq> p_categoryId p)
           then [createUncategorizedCategory
                   (length (filter (\<lambda>p. p_categoryId p = None \<or> p_categoryId p = Some [] \<or>
                                         (\<forall>c\<in>set categories. Some (c_id c) \<noteq> p_categoryId p))
                              prompts))]
           else []))"
    by (simp only: u)
  have b: "\<forall>c n. t_label (createCategoryItem c n) = c_name c @ js '' ('' @ numberToString n @ js '')'' \<and>
          t_id (createCategoryItem c n) = c_id c \<and>
          t_contextValue (createCategoryItem c n) = CATEGORY_ITEM"
    by (simp add: createCategoryItem_def Let_def)
  have c: "\<forall>n. t_label (createUncategorizedCategory n) =
            uncategorized_name @ js '' ('' @ numberToString n @ js '')'' \<and>
        t_id (createUncategorizedCategory n) = UNCATEGORIZED \<and>
        t_contextValue (createUncategorizedCategory n) = CATEGORY_ITEM"
    by (simp add: createUncategorizedCategory_def)
  from a b c show ?thesis by blast
qed

lemma label1: "js '' ('' @ numberToString (Suc 0) @ js '')'' = [32, 40, 49, 41]"
  by (simp add: js_def numberToString.simps)

theorem getRootItems_hierarchy_witness:
  "fst (getRootItems ascii_host new_provider (healthy [p1, p2] [programming])) =
     Inr [createCategoryItem programming 1, createUncategorizedCategory 1] \<and>
   t_label (createCategoryItem programming 1) = [32534, 31243, 32, 40, 49, 41] \<and>
   t_label (createUncategorizedCategory 1) = [26410, 20998, 31867, 32, 40, 49, 41]"
proof -
  let ?gs = "healthy [p1, p2] [programming]"
  have nf: "\<not> (truthy (searchFilter new_provider) \<and> trim (the (searchFilter new_provider)) \<noteq> [])"
    by (simp add: new_provider_def truthy_def)
  have gp: "getPrompts ?gs = Inr [p1, p2]"
    by (simp add: getPrompts_def get_prompts_def healthy_def)
  have gc: "getCategories ?gs = Inr [programming]"
    by (simp add: getCategories_readable healthy_def)
  from getRootItems_hierarchy [OF nf gp gc, of ascii_host]
  have a: "fst (getRootItems ascii_host new_provider ?gs) =
     Inr [createCategoryItem programming 1, createUncategorizedCategory 1]"
    by (simp add: p1_def p2_def programming_def js_def)
  from getRootItems_hierarchy [OF nf gp gc, of ascii_host]
  have "t_label (createCategoryItem programming 1) =
          c_name programming @ js '' ('' @ numberToString 1 @ js '')'' \<and>
        t_label (createUncategorizedCategory 1) =
          uncategorized_name @ js '' ('' @ numberToString 1 @ js '')''"
    by simp
  then have b: "t_label (createCategoryItem programming 1) = [32534, 31243, 32, 40, 49, 41] \<and>
   t_label (createUncategorizedCategory 1) = [26410, 20998, 31867, 32, 40, 49, 41]"
    by (simp add: label1 programming_def uncategorized_name_def)
  from a b show ?thesis by blast
qed

text \<open>
  C1 as stated fails: a prompt whose \<open>categoryId\<close> is the empty string is uncategorized
  even when a category has the empty string as its id.
\<close>

theorem uncategorized_despite_match_counterexample:
  "p_categoryId blank_id_prompt = Some (c_id blank_id_category) \<and>
   fst (getRootItems ascii_host new_provider (healthy [blank_id_prompt] [blank_id_category])) =
     Inr [createCategoryItem blank_id_category 1, createUncategorizedCategory 1]"
  by (simp add: getRootItems_def getPrompts_def get_prompts_def getCategories_readable
      healthy_def new_provider_def truthy_def getCategoryPromptCount_def isUncategorized_def
      blank_id_prompt_def blank_id_category_def Let_def)

text \<open>
  C2. The guide of a category is found by the convention (id ends in \<open>-guide\<close>, or the
  title contains the marker), but the prompt left out of the remaining children is the
  one whose id is the category id followed by \<open>-guide\<close>. A guide with another id is
  returned twice: as the guide item, first, and again as a prompt item.
\<close>

theorem getChildItems_guide_listed_twice:
  "getChildItems (healthy [intro_guide] [programming]) (createCategoryItem programming 1) =
     Inr [\<lparr>t_id = js ''guide-programming'', t_label = guide_label, t_contextValue = GUIDE_ITEM,
           t_iconPath = Some (js ''book''), t_collapsibleState = Some NoneState,
           t_command = Some (VIEW_GUIDE_FROM_TREE intro_guide (js ''programming'')),
           t_promptData = None, t_categoryData = None,
           t_parentId = Some (js ''programming''), t_sortOrder = None, t_description = None,
           t_guideData = Some intro_guide, t_categoryId = Some (js ''programming'')\<rparr>,
          createPromptItem intro_guide (Some (js ''programming''))]"
  by (simp add: getChildItems_def createGuideItem_def getPrompts_def get_prompts_def
      healthy_def createCategoryItem_def Let_def programming_def intro_guide_def
      UNCATEGORIZED_def js_def endsWith_def)

section \<open>PromptTreeDataProvider: debounce\<close>

lemma run_append: "run (es @ fs) s = run fs (run es s)"
  by (simp add: run_def)

lemma run_Cons: "run (e # es) s = run es (step s e)"
  by (simp add: run_def)

lemma run_Nil: "run [] s = s"
  by (simp add: run_def)

lemma refresh_refresh: "refresh t (refresh u this) = refresh t this"
  by (simp add: refresh_def)

lemma run_timers_idle:
  "next_due this = None \<Longrightarrow> run_timers T this = this"
  by (subst run_timers.simps) simp

lemma run_timers_early:
  "next_due this = Some (t, k) \<Longrightarrow> T < t \<Longrightarrow> run_timers T this = this"
  by (subst run_timers.simps) simp

lemma run_timers_due:
  "next_due this = Some (t, k) \<Longrightarrow> t \<le> T \<Longrightarrow> run_timers T this = run_timers T (fire k t this)"
  by (subst run_timers.simps) simp

lemma next_due_refresh_only:
  "searchTimeout this = None \<Longrightarrow> next_due (refresh t this) = Some (t + 100, RefreshTimer)"
  by (simp add: next_due_def refresh_def)

lemma fire_refresh_only:
  "fire RefreshTimer u (refresh t this) =
     this\<lparr>refreshTimeout := None, notifications := notifications this @ [u]\<rparr>"
  by (simp add: refresh_def)

lemma wait_short:
  "searchTimeout this = None \<Longrightarrow> g < 100 \<Longrightarrow>
   run_timers (t + g) (refresh t this) = refresh t this"
  by (rule run_timers_early [OF next_due_refresh_only]) simp_all

lemma wait_long:
  assumes "searchTimeout this = None" and "100 \<le> g"
  shows "run_timers (t + g) (refresh t this) =
         this\<lparr>refreshTimeout := None, notifications := notifications this @ [t + 100]\<rparr>"
proof -
  have "run_timers (t + g) (refresh t this) =
        run_timers (t + g) (fire RefreshTimer (t + 100) (refresh t this))"
    using assms by (intro run_timers_due next_due_refresh_only) simp_all
  also have "\<dots> = run_timers (t + g)
       (this\<lparr>refreshTimeout := None, notifications := notifications this @ [t + 100]\<rparr>)"
    by (simp only: fire_refresh_only)
  also have "\<dots> = this\<lparr>refreshTimeout := None, notifications := notifications this @ [t + 100]\<rparr>"
    using assms(1) by (intro run_timers_idle) (simp add: next_due_def)
  finally show ?thesis .
qed

lemma burst_within:
  "searchTimeout this = None \<Longrightarrow> \<forall>g\<in>set gaps. g < 100 \<Longrightarrow>
   run (concat (map (\<lambda>g. [Wait g, CallRefresh]) gaps)) (t, refresh t this) =
     (last (call_times t gaps), refresh (last (call_times t gaps)) this)"
proof (induction gaps arbitrary: t)
  case Nil
  show ?case by (simp add: run_Nil)
next
  case (Cons g gaps)
  from Cons.prems have g: "g < 100" by simp
  have ne: "call_times (t + g) gaps \<noteq> []" by (cases gaps) simp_all
  have "run (concat (map (\<lambda>g. [Wait g, CallRefresh]) (g # gaps))) (t, refresh t this) =
        run (concat (map (\<lambda>g. [Wait g, CallRefresh]) gaps)) (t + g, refresh (t + g) this)"
    using Cons.prems(1) g by (simp add: run_Cons wait_short refresh_refresh)
  also have "\<dots> = (last (call_times (t + g) gaps), refresh (last (call_times (t + g) gaps)) this)"
    using Cons.prems by (intro Cons.IH) simp_all
  finally show ?case using ne by simp
qed

lemma burst_beyond:
  "searchTimeout this = None \<Longrightarrow> \<forall>g\<in>set gaps. 100 < g \<Longrightarrow>
   run (concat (map (\<lambda>g. [Wait g, CallRefresh]) gaps)) (t, refresh t this) =
     (last (call_times t gaps),
      refresh (last (call_times t gaps))
        (this\<lparr>notifications :=
                 notifications this @ map (\<lambda>c. c + 100) (butlast (call_times t gaps))\<rparr>))"
proof (induction gaps arbitrary: t this)
  case Nil
  show ?case by (simp add: run_Nil)
next
  case (Cons g gaps)
  from Cons.prems have g: "100 \<le> g" by simp
  have ne: "call_times (t + g) gaps \<noteq> []" by (cases gaps) simp_all
  let ?this' = "this\<lparr>notifications := notifications this @ [t + 100]\<rparr>"
  have s': "searchTimeout ?this' = None" using Cons.prems(1) by simp
  have r: "refresh (t + g)
             (this\<lparr>refreshTimeout := None, notifications := notifications this @ [t + 100]\<rparr>) =
           refresh (t + g) ?this'"
    by (simp add: refresh_def)
  have "run (concat (map (\<lambda>g. [Wait g, CallRefresh]) (g # gaps))) (t, refresh t this) =
        run (concat (map (\<lambda>g. [Wait g, CallRefresh]) gaps)) (t + g, refresh (t + g) ?this')"
    using Cons.prems(1) g by (simp add: run_Cons wait_long r)
  also have "\<dots> = (last (call_times (t + g) gaps),
      refresh (last (call_times (t + g) gaps))
        (?this'\<lparr>notifications :=
                 notifications ?this' @ map (\<lambda>c. c + 100) (butlast (call_times (t + g) gaps))\<rparr>))"
    using s' Cons.prems(2) by (intro Cons.IH) simp_all
  finally show ?case using ne by simp
qed

lemma length_call_times: "length (call_times t gaps) = length gaps + 1"
  by (induction gaps arbitrary: t) simp_all

text \<open>
  C8. Take a provider with no filter change pending, and N calls of \<open>refresh()\<close>, the
  first at time \<open>t0\<close> and each next one after the given gap, followed by a wait of at
  least the window of 100 ms. If every gap is shorter than the window, exactly one
  notification is added, 100 ms after the last call. If every gap is longer than the
  window, exactly N notifications are added, one 100 ms after each call.
\<close>

theorem refresh_debounce:
  "searchTimeout this = None \<Longrightarrow> 100 \<le> d \<Longrightarrow>
   ((\<forall>g\<in>set gaps. g < 100) \<longrightarrow>
      notifications (snd (run (refresh_calls gaps @ [Wait d]) (t0, this))) =
        notifications this @ [last (call_times t0 gaps) + 100]) \<and>
   ((\<forall>g\<in>set gaps. 100 < g) \<longrightarrow>
      notifications (snd (run (refresh_calls gaps @ [Wait d]) (t0, this))) =
        notifications this @ map (\<lambda>c. c + 100) (call_times t0 gaps)) \<and>
   length (call_times t0 gaps) = length gaps + 1 \<and>
   length (filter (\<lambda>e. e = CallRefresh) (refresh_calls gaps)) = length gaps + 1"
proof -
  assume st: "searchTimeout this = None" and d: "100 \<le> d"
  let ?body = "concat (map (\<lambda>g. [Wait g, CallRefresh]) gaps)"
  let ?l = "last (call_times t0 gaps)"
  have split: "run (refresh_calls gaps @ [Wait d]) (t0, this) =
               step (run ?body (t0, refresh t0 this)) (Wait d)"
    by (simp add: refresh_calls_def run_append run_Cons run_Nil)
  have ne: "call_times t0 gaps \<noteq> []" by (cases gaps) simp_all
  have a: "notifications (snd (run (refresh_calls gaps @ [Wait d]) (t0, this))) =
        notifications this @ [?l + 100]" if "\<forall>g\<in>set gaps. g < 100"
    using st d by (simp add: split burst_within [OF st that] wait_long)
  have b: "notifications (snd (run (refresh_calls gaps @ [Wait d]) (t0, this))) =
        notifications this @ map (\<lambda>c. c + 100) (call_times t0 gaps)" if "\<forall>g\<in>set gaps. 100 < g"
  proof -
    let ?this' = "this\<lparr>notifications :=
                 notifications this @ map (\<lambda>c. c + 100) (butlast (call_times t0 gaps))\<rparr>"
    have s': "searchTimeout ?this' = None" using st by simp
    have "notifications (snd (run (refresh_calls gaps @ [Wait d]) (t0, this))) =
        notifications this @ map (\<lambda>c. c + 100) (butlast (call_times t0 gaps)) @ [?l + 100]"
      using d by (simp add: split burst_beyond [OF st that] wait_long [OF s'])
    also have "map (\<lambda>c. c + 100) (butlast (call_times t0 gaps)) @ [?l + 100] =
               map (\<lambda>c. c + 100) (butlast (call_times t0 gaps) @ [?l])" by simp
    also have "butlast (call_times t0 gaps) @ [?l] = call_times t0 gaps"
      using ne by simp
    finally show ?thesis .
  qed
  have c: "length (filter (\<lambda>e. e = CallRefresh) (refresh_calls gaps)) = length gaps + 1"
    by (induction gaps) (simp_all add: refresh_calls_def)
  from a b c length_call_times [of t0 gaps] show ?thesis by blast
qed

theorem refresh_debounce_witness:
  "notifications (snd (run (refresh_calls [30, 50] @ [Wait 100]) (0, new_provider))) = [180] \<and>
   notifications (snd (run (refresh_calls [150, 200] @ [Wait 100]) (0, new_provider))) =
     [100, 250, 450]"
proof -
  have st: "searchTimeout new_provider = None" by (simp add: new_provider_def)
  have d: "(100::nat) \<le> 100" by simp
  have w: "\<forall>g\<in>set [30, 50::nat]. g < 100" by simp
  have b: "\<forall>g\<in>set [150, 200::nat]. 100 < g" by simp
  from refresh_debounce [OF st d, of "[30, 50]" 0] w
  have 1: "notifications (snd (run (refresh_calls [30, 50] @ [Wait 100]) (0, new_provider))) = [180]"
    by (simp add: new_provider_def)
  from refresh_debounce [OF st d, of "[150, 200]" 0] b
  have 2: "notifications (snd (run (refresh_calls [150, 200] @ [Wait 100]) (0, new_provider))) =
     [100, 250, 450]"
    by (simp add: new_provider_def)
  from 1 2 show ?thesis by blast
qed

lemma run_timers_keeps_filter:
  "searchTimeout this = None \<Longrightarrow> searchFilter (run_timers T this) = searchFilter this"
proof (induction T this rule: run_timers.induct)
  case (1 T this)
  show ?case
  proof (cases "next_due this")
    case None
    then show ?thesis by (simp add: run_timers_idle)
  next
    case (Some a)
    obtain t k where a: "a = (t, k)" by (cases a)
    show ?thesis
    proof (cases "t \<le> T")
      case False
      with Some a show ?thesis by (simp add: run_timers_early)
    next
      case True
      from Some a "1.prems" have k: "k = RefreshTimer"
        by (auto simp: next_due_def split: option.splits)
      have "searchFilter (run_timers T (fire k t this)) = searchFilter (fire k t this)"
        using Some a True "1.prems" k by (intro "1.IH") simp_all
      with Some a True k show ?thesis by (simp add: run_timers_due)
    qed
  qed
qed

lemma run_timers_applies_filter:
  "searchTimeout this = Some (s, f) \<Longrightarrow> s \<le> T \<Longrightarrow> searchFilter (run_timers T this) = f"
proof (induction T this rule: run_timers.induct)
  case (1 T this)
  from "1.prems" have "next_due this \<noteq> None"
    by (auto simp: next_due_def split: option.splits)
  then obtain t k where nd: "next_due this = Some (t, k)"
    by (cases "next_due this") auto
  from nd "1.prems" have le: "t \<le> T"
    by (auto simp: next_due_def split: option.splits if_splits)
  have unfold: "run_timers T this = run_timers T (fire k t this)"
    using nd le by (rule run_timers_due)
  show ?case
  proof (cases k)
    case RefreshTimer
    have "searchFilter (run_timers T (fire k t this)) = f"
      using nd le "1.prems" RefreshTimer by (intro "1.IH") simp_all
    with unfold show ?thesis by simp
  next
    case SearchTimer
    have f: "fire k t this = refresh t (this\<lparr>searchTimeout := None, searchFilter := f\<rparr>)"
      using SearchTimer "1.prems"(1) by simp
    have "searchFilter (run_timers T (fire k t this)) = searchFilter (fire k t this)"
      by (rule run_timers_keeps_filter) (simp add: f refresh_def)
    with unfold f show ?thesis by (simp add: refresh_def)
  qed
qed

lemma getRootItems_filter_only:
  "searchFilter this = searchFilter that \<Longrightarrow>
   fst (getRootItems h this gs) = fst (getRootItems h that gs)"
  by (simp add: getRootItems_def getSearchResults_def Let_def split: sum.split)

text \<open>
  C7. After any sequence of events (calls of \<open>setSearchFilter\<close> and \<open>refresh\<close>, time
  passing) that ends with \<open>setSearchFilter(null)\<close> and a wait of at least its 300 ms, the
  filter is \<open>null\<close> and \<open>getRootItems()\<close> returns, on the same store, what it returns on
  a provider on which no filter was ever set.
\<close>

theorem clearing_filter_restores_hierarchy:
  "300 \<le> d \<Longrightarrow>
   searchFilter (snd (run (es @ [CallSetSearchFilter None, Wait d]) (t0, this))) = None \<and>
   fst (getRootItems h (snd (run (es @ [CallSetSearchFilter None, Wait d]) (t0, this))) gs) =
     fst (getRootItems h new_provider gs)"
proof -
  assume d: "300 \<le> d"
  obtain t p where r: "run es (t0, this) = (t, p)" by (cases "run es (t0, this)")
  have "snd (run (es @ [CallSetSearchFilter None, Wait d]) (t0, this)) =
        run_timers (t + d) (setSearchFilter t None p)"
    by (simp add: run_append r run_Cons run_Nil)
  moreover have "searchFilter (run_timers (t + d) (setSearchFilter t None p)) = None"
    using d by (intro run_timers_applies_filter [where s = "t + 300"]) (simp_all add: setSearchFilter_def)
  ultimately have a: "searchFilter (snd (run (es @ [CallSetSearchFilter None, Wait d]) (t0, this))) = None"
    by simp
  then have "searchFilter (snd (run (es @ [CallSetSearchFilter None, Wait d]) (t0, this))) =
             searchFilter new_provider"
    by (simp add: new_provider_def)
  then have "fst (getRootItems h (snd (run (es @ [CallSetSearchFilter None, Wait d]) (t0, this))) gs) =
     fst (getRootItems h new_provider gs)"
    by (rule getRootItems_filter_only)
  with a show ?thesis by blast
qed

section \<open>PromptTreeDataProvider: the search projection\<close>

lemma set_insert_sorted: "set (insert_sorted cmp x ys) = insert x (set ys)"
  by (induction ys) auto

lemma set_array_sort: "set (array_sort cmp xs) = set xs"
  by (induction xs) (simp_all add: set_insert_sorted)

lemma distinct_map_insert_sorted:
  "distinct (map f (insert_sorted cmp x ys)) = (f x \<notin> f ` set ys \<and> distinct (map f ys))"
  by (induction ys) (auto simp: set_insert_sorted)

lemma distinct_map_array_sort:
  "distinct (map f (array_sort cmp xs)) = distinct (map f xs)"
  by (induction xs) (simp_all add: distinct_map_insert_sorted set_array_sort)

lemma sorted_insert_sorted:
  assumes c: "consistent_comparator cmp"
  shows "sorted_wrt (\<lambda>a b. cmp a b \<le> 0) ys \<Longrightarrow>
         sorted_wrt (\<lambda>a b. cmp a b \<le> 0) (insert_sorted cmp x ys)"
proof (induction ys)
  case Nil
  show ?case by simp
next
  case (Cons y ys)
  from c have anti: "\<And>a b. (cmp a b < 0) = (cmp b a > 0)"
    and trans: "\<And>a b d. cmp a b \<le> 0 \<Longrightarrow> cmp b d \<le> 0 \<Longrightarrow> cmp a d \<le> 0"
    unfolding consistent_comparator_def by blast+
  show ?case
  proof (cases "cmp x y \<le> 0")
    case True
    have "\<forall>z\<in>set ys. cmp x z \<le> 0"
      using True Cons.prems trans by auto
    with True Cons.prems show ?thesis by simp
  next
    case False
    then have "cmp y x \<le> 0" using anti [of y x] by simp
    with False Cons show ?thesis by (simp add: set_insert_sorted)
  qed
qed

lemma sorted_array_sort:
  "consistent_comparator cmp \<Longrightarrow> sorted_wrt (\<lambda>a b. cmp a b \<le> 0) (array_sort cmp xs)"
  by (induction xs) (simp_all add: sorted_insert_sorted)

lemma byRelevance_consistent:
  assumes c: "consistent_comparator (localeCompare h)"
  shows "consistent_comparator (byRelevance h searchTerm)"
proof -
  let ?T = "\<lambda>p. string_includes (toLowerCase h (p_title p)) searchTerm"
  let ?L = "localeCompare h"
  from c have refl: "\<And>a. ?L a a = 0"
    and anti: "\<And>a b. (?L a b < 0) = (?L b a > 0)"
    and trans: "\<And>a b d. ?L a b \<le> 0 \<Longrightarrow> ?L b d \<le> 0 \<Longrightarrow> ?L a d \<le> 0"
    unfolding consistent_comparator_def by blast+
  have 1: "\<forall>a. byRelevance h searchTerm a a = 0"
    by (simp add: byRelevance_def refl)
  have 2: "\<forall>a b. (byRelevance h searchTerm a b < 0) = (byRelevance h searchTerm b a > 0)"
    using anti by (auto simp: byRelevance_def Let_def)
  have 3: "\<forall>a b d. byRelevance h searchTerm a b \<le> 0 \<and> byRelevance h searchTerm b d \<le> 0 \<longrightarrow>
                 byRelevance h searchTerm a d \<le> 0"
  proof (intro allI impI)
    fix a b d
    assume "byRelevance h searchTerm a b \<le> 0 \<and> byRelevance h searchTerm b d \<le> 0"
    then show "byRelevance h searchTerm a d \<le> 0"
      using trans [of "p_title a" "p_title b" "p_title d"]
      by (cases "?T a"; cases "?T b"; cases "?T d") (simp_all add: byRelevance_def Let_def)
  qed
  from 1 2 3 show ?thesis unfolding consistent_comparator_def by blast
qed

lemma byRelevance_le:
  "(byRelevance h searchTerm a b \<le> 0) =
     (let ta = string_includes (toLowerCase h (p_title a)) searchTerm;
          tb = string_includes (toLowerCase h (p_title b)) searchTerm
      in (ta \<and> \<not> tb) \<or> (ta = tb \<and> localeCompare h (p_title a) (p_title b) \<le> 0))"
  by (auto simp: byRelevance_def Let_def)

lemma pushUnmatched_distinct:
  "distinct (map p_id m) \<Longrightarrow> distinct (map p_id (pushUnmatched m xs))"
proof (induction xs arbitrary: m)
  case Nil
  then show ?case by simp
next
  case (Cons x xs)
  show ?case
  proof (cases "list_ex (\<lambda>mp. p_id mp = p_id x) m")
    case True
    with Cons show ?thesis by simp
  next
    case False
    then have "p_id x \<notin> p_id ` set m" by (auto simp: list_ex_iff)
    with Cons.prems have "distinct (map p_id (m @ [x]))" by simp
    then have "distinct (map p_id (pushUnmatched (m @ [x]) xs))" by (rule Cons.IH)
    with False show ?thesis by simp
  qed
qed

lemma pushUnmatched_set:
  "inj_on p_id (set m \<union> set xs) \<Longrightarrow> set (pushUnmatched m xs) = set m \<union> set xs"
proof (induction xs arbitrary: m)
  case Nil
  then show ?case by simp
next
  case (Cons x xs)
  show ?case
  proof (cases "list_ex (\<lambda>mp. p_id mp = p_id x) m")
    case True
    then obtain mp where mp: "mp \<in> set m" "p_id mp = p_id x" by (auto simp: list_ex_iff)
    have "mp \<in> set m \<union> set (x # xs)" "x \<in> set m \<union> set (x # xs)" using mp by simp_all
    with Cons.prems mp(2) have "mp = x" by (meson inj_onD)
    with mp have x: "x \<in> set m" by simp
    from Cons.prems have "inj_on p_id (set m \<union> set xs)"
      by (rule inj_on_subset) auto
    then have "set (pushUnmatched m xs) = set m \<union> set xs" by (rule Cons.IH)
    with True x show ?thesis by auto
  next
    case False
    from Cons.prems have "inj_on p_id (set (m @ [x]) \<union> set xs)"
      by (rule inj_on_subset) auto
    then have "set (pushUnmatched (m @ [x]) xs) = set (m @ [x]) \<union> set xs" by (rule Cons.IH)
    with False show ?thesis by auto
  qed
qed

lemma pushCategoryPrompts_distinct:
  "distinct (map p_id m) \<Longrightarrow> distinct (map p_id (pushCategoryPrompts prompts m ids))"
  by (induction ids arbitrary: m) (simp_all add: pushUnmatched_distinct)

lemma pushCategoryPrompts_set:
  "inj_on p_id (set prompts) \<Longrightarrow> set m \<subseteq> set prompts \<Longrightarrow>
   set (pushCategoryPrompts prompts m ids) =
     set m \<union> {p \<in> set prompts. \<exists>i\<in>set ids. p_categoryId p = Some i}"
proof (induction ids arbitrary: m)
  case Nil
  then show ?case by simp
next
  case (Cons i ids)
  let ?xs = "filter (\<lambda>p. p_categoryId p = Some i) prompts"
  have sub: "set m \<union> set ?xs \<subseteq> set prompts" using Cons.prems(2) by auto
  with Cons.prems(1) have "inj_on p_id (set m \<union> set ?xs)" by (rule inj_on_subset)
  then have s: "set (pushUnmatched m ?xs) = set m \<union> set ?xs" by (rule pushUnmatched_set)
  with sub have "set (pushUnmatched m ?xs) \<subseteq> set prompts" by simp
  with Cons.prems(1)
  have "set (pushCategoryPrompts prompts (pushUnmatched m ?xs) ids) =
        set (pushUnmatched m ?xs) \<union> {p \<in> set prompts. \<exists>i\<in>set ids. p_categoryId p = Some i}"
    by (rule Cons.IH)
  with s show ?case by auto
qed

lemma isMatch_iff:
  "isMatch h searchTerm p =
     (string_includes (toLowerCase h (p_title p)) searchTerm \<or>
      (\<exists>tags. p_tags p = Some tags \<and>
              (\<exists>tag\<in>set tags. string_includes (toLowerCase h tag) searchTerm)) \<or>
      string_includes (toLowerCase h (p_content p)) searchTerm)"
  by (cases "p_tags p") (auto simp: isMatch_def list_ex_iff)

lemma code_unit_compare_refl: "code_unit_compare a a = 0"
  by (induction a) simp_all

lemma code_unit_compare_anti: "(code_unit_compare a b < 0) = (code_unit_compare b a > 0)"
  by (induction a b rule: code_unit_compare.induct) auto

lemma code_unit_compare_trans:
  "code_unit_compare a b \<le> 0 \<Longrightarrow> code_unit_compare b c \<le> 0 \<Longrightarrow> code_unit_compare a c \<le> 0"
proof (induction a b arbitrary: c rule: code_unit_compare.induct)
  case 1
  then show ?case by simp
next
  case (2 y ys)
  then show ?case by (cases c) simp_all
next
  case (3 x xs)
  then show ?case by simp
next
  case (4 x xs y ys)
  show ?case
  proof (cases c)
    case Nil
    with "4.prems" show ?thesis by simp
  next
    case (Cons z zs)
    with "4.prems" "4.IH" [of zs] show ?thesis
      by (auto split: if_splits)
  qed
qed

lemma ascii_host_consistent: "consistent_comparator (localeCompare ascii_host)"
  unfolding consistent_comparator_def ascii_host_def
  using code_unit_compare_refl code_unit_compare_anti code_unit_compare_trans
  by (simp, blast)

lemma createPromptItem_carries:
  "t_promptData (createPromptItem p parent) = Some p \<and>
   t_id (createPromptItem p parent) = p_id p \<and>
   t_label (createPromptItem p parent) = p_title p \<and>
   t_contextValue (createPromptItem p parent) = PROMPT_ITEM \<and>
   t_parentId (createPromptItem p parent) = parent"
  by (simp add: createPromptItem_def)

text \<open>
  C4. Let the filter be a term that is not blank, the stored prompt ids be pairwise
  distinct and \<open>localeCompare\<close> be a consistent comparator. Then \<open>getRootItems()\<close> returns
  one prompt item per element of a list \<open>found\<close> of prompts, in the order of the list,
  each carrying that prompt as its \<open>promptData\<close>, the prompt's id as its id and the
  prompt's title as its label, with no parent. No id occurs twice in \<open>found\<close>, nor among
  the items; the elements of \<open>found\<close> are exactly the stored prompts that match in title,
  tag or content or belong to a category whose name matches; every prompt whose title
  contains the term comes before every prompt whose title does not; and inside each of
  the two tiers the titles are in the order of \<open>localeCompare\<close>.
\<close>

theorem search_results_once_and_ranked:
  "searchFilter this = Some f \<Longrightarrow> \<exists>c\<in>set f. \<not> isWhiteSpace c \<Longrightarrow>
   consistent_comparator (localeCompare h) \<Longrightarrow>
   getPrompts gs = Inr prompts \<Longrightarrow> getCategories gs = Inr categories \<Longrightarrow>
   distinct (map p_id prompts) \<Longrightarrow>
   searchTerm = trim (toLowerCase h f) \<Longrightarrow>
   \<exists>found items.
     fst (getRootItems h this gs) = Inr items \<and>
     fst (getRootItems h this gs) = Inr (map (\<lambda>p. createPromptItem p None) found) \<and>
     map t_promptData items = map Some found \<and>
     map t_id items = map p_id found \<and>
     map t_label items = map p_title found \<and>
     (\<forall>x\<in>set items. t_contextValue x = PROMPT_ITEM \<and> t_parentId x = None) \<and>
     distinct (map t_id items) \<and>
     distinct (map p_id found) \<and>
     set found =
       {p \<in> set prompts.
          string_includes (toLowerCase h (p_title p)) searchTerm \<or>
          (\<exists>tags. p_tags p = Some tags \<and>
                  (\<exists>tag\<in>set tags. string_includes (toLowerCase h tag) searchTerm)) \<or>
          string_includes (toLowerCase h (p_content p)) searchTerm \<or>
          (\<exists>c\<in>set categories.
              string_includes (toLowerCase h (c_name c)) searchTerm \<and>
              p_categoryId p = Some (c_id c))} \<and>
     (\<forall>i j. i < j \<and> j < length found \<longrightarrow>
        (string_includes (toLowerCase h (p_title (found ! j))) searchTerm \<longrightarrow>
         string_includes (toLowerCase h (p_title (found ! i))) searchTerm) \<and>
        (string_includes (toLowerCase h (p_title (found ! i))) searchTerm =
         string_includes (toLowerCase h (p_title (found ! j))) searchTerm \<longrightarrow>
         localeCompare h (p_title (found ! i)) (p_title (found ! j)) \<le> 0))"
proof -
  assume sf: "searchFilter this = Some f" and nb: "\<exists>c\<in>set f. \<not> isWhiteSpace c"
    and cc: "consistent_comparator (localeCompare h)"
    and gp: "getPrompts gs = Inr prompts" and gc: "getCategories gs = Inr categories"
    and dp: "distinct (map p_id prompts)"
    and st: "searchTerm = trim (toLowerCase h f)"
  let ?Q = "\<lambda>category. string_includes (toLowerCase h (c_name category)) searchTerm"
  let ?ids = "map c_id (filter ?Q categories)"
  let ?m = "filter (isMatch h searchTerm) prompts"
  let ?pc = "pushCategoryPrompts prompts ?m ?ids"
  let ?found = "array_sort (byRelevance h searchTerm) ?pc"
  let ?items = "map (\<lambda>p. createPromptItem p None) ?found"
  from nb have tf: "trim f \<noteq> []" by (simp add: trim_blank_iff)
  then have fne: "f \<noteq> []" by (auto simp: trim_def)
  have res: "fst (getRootItems h this gs) = Inr ?items"
    using tf fne by (simp add: getRootItems_def getSearchResults_def sf truthy_def gp gc st Let_def)
  have d: "distinct (map p_id ?found)"
    using dp by (simp only: distinct_map_array_sort pushCategoryPrompts_distinct distinct_map_filter)
  have c1: "map t_promptData ?items = map Some ?found"
    by (simp add: createPromptItem_carries comp_def)
  have c2: "map t_id ?items = map p_id ?found"
    by (simp add: createPromptItem_carries comp_def)
  have c3: "map t_label ?items = map p_title ?found"
    by (simp add: createPromptItem_carries comp_def)
  have c4: "\<forall>x\<in>set ?items. t_contextValue x = PROMPT_ITEM \<and> t_parentId x = None"
    by (auto simp: createPromptItem_carries)
  have c5: "distinct (map t_id ?items)" unfolding c2 by (rule d)
  from dp have inj: "inj_on p_id (set prompts)" by (simp add: distinct_map)
  have "set ?pc = set ?m \<union> {p \<in> set prompts. \<exists>i\<in>set ?ids. p_categoryId p = Some i}"
    using inj by (rule pushCategoryPrompts_set) simp
  then have s: "set ?found =
       {p \<in> set prompts.
          string_includes (toLowerCase h (p_title p)) searchTerm \<or>
          (\<exists>tags. p_tags p = Some tags \<and>
                  (\<exists>tag\<in>set tags. string_includes (toLowerCase h tag) searchTerm)) \<or>
          string_includes (toLowerCase h (p_content p)) searchTerm \<or>
          (\<exists>c\<in>set categories.
              string_includes (toLowerCase h (c_name c)) searchTerm \<and>
              p_categoryId p = Some (c_id c))}"
    by (auto simp: set_array_sort isMatch_iff)
  have "sorted_wrt (\<lambda>a b. byRelevance h searchTerm a b \<le> 0) ?found"
    using cc by (intro sorted_array_sort byRelevance_consistent)
  then have o: "\<forall>i j. i < j \<and> j < length ?found \<longrightarrow>
        (string_includes (toLowerCase h (p_title (?found ! j))) searchTerm \<longrightarrow>
         string_includes (toLowerCase h (p_title (?found ! i))) searchTerm) \<and>
        (string_includes (toLowerCase h (p_title (?found ! i))) searchTerm =
         string_includes (toLowerCase h (p_title (?found ! j))) searchTerm \<longrightarrow>
         localeCompare h (p_title (?found ! i)) (p_title (?found ! j)) \<le> 0)"
    unfolding sorted_wrt_iff_nth_less byRelevance_le Let_def by blast
  show ?thesis
    by (rule exI [of _ ?found], rule exI [of _ ?items])
      (intro conjI res c1 c2 c3 c4 c5 d s o)
qed

lemma search_example:
  "fst (getRootItems ascii_host (new_provider\<lparr>searchFilter := Some (js '' Refactor'')\<rparr>)
          (healthy [unrelated, helper_note, refactor_helper] [refactoring])) =
     Inr [createPromptItem refactor_helper None, createPromptItem helper_note None]"
  by (simp add: getRootItems_def getSearchResults_def getPrompts_def get_prompts_def
      getCategories_readable healthy_def new_provider_def truthy_def trim_def isWhiteSpace_def
      ascii_host_def ascii_lower_def isMatch_def byRelevance_def Let_def
      refactoring_def refactor_helper_def helper_note_def unrelated_def js_def)

theorem search_results_once_and_ranked_witness:
  "fst (getRootItems ascii_host (new_provider\<lparr>searchFilter := Some (js '' Refactor'')\<rparr>)
          (healthy [unrelated, helper_note, refactor_helper] [refactoring])) =
     Inr [createPromptItem refactor_helper None, createPromptItem helper_note None] \<and>
   (\<exists>found.
      fst (getRootItems ascii_host (new_provider\<lparr>searchFilter := Some (js '' Refactor'')\<rparr>)
          (healthy [unrelated, helper_note, refactor_helper] [refactoring])) =
        Inr (map (\<lambda>p. createPromptItem p None) found) \<and>
      distinct (map p_id found)) \<and>
   (\<exists>items.
      fst (getRootItems ascii_host (new_provider\<lparr>searchFilter := Some (js '' Refactor'')\<rparr>)
          (healthy [unrelated, helper_note, refactor_helper] [refactoring])) = Inr items \<and>
      map t_promptData items = [Some refactor_helper, Some helper_note] \<and>
      map t_id items = [js ''a'', js ''b''] \<and>
      map t_label items = [js ''Refactor helper'', js ''Helper note''] \<and>
      distinct (map t_id items))"
proof -
  let ?prov = "new_provider\<lparr>searchFilter := Some (js '' Refactor'')\<rparr>"
  let ?gs = "healthy [unrelated, helper_note, refactor_helper] [refactoring]"
  have sf: "searchFilter ?prov = Some (js '' Refactor'')" by simp
  have nb: "\<exists>c\<in>set (js '' Refactor''). \<not> isWhiteSpace c"
    by (simp add: js_def isWhiteSpace_def)
  have gp: "getPrompts ?gs = Inr [unrelated, helper_note, refactor_helper]"
    by (simp add: getPrompts_def get_prompts_def healthy_def)
  have gc: "getCategories ?gs = Inr [refactoring]"
    by (simp add: getCategories_readable healthy_def)
  have dp: "distinct (map p_id [unrelated, helper_note, refactor_helper])"
    by (simp add: unrelated_def helper_note_def refactor_helper_def js_def)
  from search_results_once_and_ranked [OF sf nb ascii_host_consistent gp gc dp refl]
  obtain found items where
    r: "fst (getRootItems ascii_host ?prov ?gs) = Inr items"
      "fst (getRootItems ascii_host ?prov ?gs) = Inr (map (\<lambda>p. createPromptItem p None) found)"
    and c: "map t_promptData items = map Some found" "map t_id items = map p_id found"
      "map t_label items = map p_title found" "distinct (map t_id items)"
      "distinct (map p_id found)"
    by blast
  from r(1) search_example
  have items: "items = [createPromptItem refactor_helper None, createPromptItem helper_note None]"
    by simp
  have "map Some found = [Some refactor_helper, Some helper_note]"
    unfolding c(1) [symmetric] items by (simp add: createPromptItem_carries)
  then have found: "found = [refactor_helper, helper_note]" by auto
  have 1: "map t_promptData items = [Some refactor_helper, Some helper_note]"
    unfolding c(1) found by simp
  have 2: "map t_id items = [js ''a'', js ''b'']"
    unfolding c(2) found by (simp add: refactor_helper_def helper_note_def)
  have 3: "map t_label items = [js ''Refactor helper'', js ''Helper note'']"
    unfolding c(3) found by (simp add: refactor_helper_def helper_note_def)
  have a: "\<exists>found.
      fst (getRootItems ascii_host ?prov ?gs) = Inr (map (\<lambda>p. createPromptItem p None) found) \<and>
      distinct (map p_id found)"
    using r(2) c(5) by (intro exI conjI)
  have b: "\<exists>items.
      fst (getRootItems ascii_host ?prov ?gs) = Inr items \<and>
      map t_promptData items = [Some refactor_helper, Some helper_note] \<and>
      map t_id items = [js ''a'', js ''b''] \<and>
      map t_label items = [js ''Refactor helper'', js ''Helper note''] \<and>
      distinct (map t_id items)"
    using r(1) 1 2 3 c(4) by (intro exI conjI)
  show ?thesis by (intro conjI search_example a b)
qed

lemma filtered_example:
  "fst (getRootItems ascii_host
          (snd (run [CallSetSearchFilter (Some (js ''sort'')), Wait 400] (0, new_provider)))
          (healthy [p1, p2] [programming])) =
     Inr [createPromptItem p1 None]"
  by (simp add: run_def setSearchFilter_def refresh_def run_timers.simps next_due_def
      getRootItems_def getSearchResults_def getPrompts_def get_prompts_def
      getCategories_readable healthy_def new_provider_def truthy_def trim_def isWhiteSpace_def
      ascii_host_def ascii_lower_def isMatch_def byRelevance_def Let_def
      programming_def p1_def p2_def js_def)

lemma unfiltered_example:
  "fst (getRootItems ascii_host new_provider (healthy [p1, p2] [programming])) =
     Inr [createCategoryItem programming 1, createUncategorizedCategory 1]"
  by (simp add: getRootItems_def getPrompts_def get_prompts_def getCategories_readable
      healthy_def new_provider_def truthy_def getCategoryPromptCount_def isUncategorized_def
      programming_def p1_def p2_def js_def Let_def)

theorem clearing_filter_restores_hierarchy_witness:
  "fst (getRootItems ascii_host
          (snd (run [CallSetSearchFilter (Some (js ''sort'')), Wait 400] (0, new_provider)))
          (healthy [p1, p2] [programming])) =
     Inr [createPromptItem p1 None] \<and>
   fst (getRootItems ascii_host
          (snd (run ([CallSetSearchFilter (Some (js ''sort'')), Wait 400] @
                     [CallSetSearchFilter None, Wait 300]) (0, new_provider)))
          (healthy [p1, p2] [programming])) =
     Inr [createCategoryItem programming 1, createUncategorizedCategory 1]"
proof -
  have d: "(300::nat) \<le> 300" by simp
  from clearing_filter_restores_hierarchy [OF d,
      of "[CallSetSearchFilter (Some (js ''sort'')), Wait 400]" 0 new_provider ascii_host
         "healthy [p1, p2] [programming]"]
    unfiltered_example filtered_example
  show ?thesis by simp
qed

end
